theory Spec2Isabelle
  imports Main "HOL-Library.Sublist"
begin

section \<open>Strings as web-monitor.py uses them\<close>

text \<open>
  Page text, search terms and fingerprints are Python \<open>str\<close> values: lists of
  Unicode code points, each written as an integer.
\<close>

type_synonym ustring = "int list"

text \<open>
  Two things that the monitor takes from Python's Unicode tables and that are no part of
  its source: \<open>str.lower\<close>, a function on whole strings (it is not always character by
  character), and the test for a whitespace character that \<open>str.strip()\<close> and
  \<open>str.split()\<close> apply to each code point. Every definition below takes them as the
  parameter \<open>py\<close>, and every theorem holds whatever they are.
\<close>

record unicode =
  str_lower :: "ustring \<Rightarrow> ustring"
  is_space :: "int \<Rightarrow> bool"

text \<open>\<open>s.strip()\<close>: leading and trailing whitespace removed.\<close>

definition py_strip :: "unicode \<Rightarrow> ustring \<Rightarrow> ustring" where
  "py_strip py s = rev (dropWhile (is_space py) (rev (dropWhile (is_space py) s)))"

text \<open>
  \<open>s.split('\n')\<close>: the pieces between line feeds (code point 10); never an empty
  list.
\<close>

fun split_newline :: "ustring \<Rightarrow> ustring list" where
  "split_newline [] = [[]]"
| "split_newline (c # cs) =
     (if c = 10 then [] # split_newline cs
      else (case split_newline cs of [] \<Rightarrow> [[c]] | l # ls \<Rightarrow> (c # l) # ls))"

text \<open>\<open>s.split()\<close>: the maximal runs of non-whitespace characters, in order.\<close>

function py_split :: "unicode \<Rightarrow> ustring \<Rightarrow> ustring list" where
  "py_split py s =
     (case dropWhile (is_space py) s of
        [] \<Rightarrow> []
      | c # cs \<Rightarrow>
          (c # takeWhile (\<lambda>x. \<not> is_space py x) cs)
            # py_split py (dropWhile (\<lambda>x. \<not> is_space py x) cs))"
  by pat_completeness auto
termination
proof (relation "measure (\<lambda>(py, s). length s)")
  show "wf (measure (\<lambda>(py :: unicode, s :: ustring). length s))" by simp
next
  fix py :: unicode and s :: ustring and c cs
  assume "dropWhile (is_space py) s = c # cs"
  then have "length (c # cs) \<le> length s"
    by (metis length_dropWhile_le)
  moreover have "length (dropWhile (\<lambda>x. \<not> is_space py x) cs) \<le> length cs"
    by (rule length_dropWhile_le)
  ultimately show "((py, dropWhile (\<lambda>x. \<not> is_space py x) cs), (py, s))
      \<in> measure (\<lambda>(py, s). length s)"
    by simp
qed

declare py_split.simps [simp del]

text \<open>\<open>' '.join(ws)\<close>: the space is code point 32.\<close>

fun join_space :: "ustring list \<Rightarrow> ustring" where
  "join_space [] = []"
| "join_space [w] = w"
| "join_space (w # v # ws) = w @ 32 # join_space (v # ws)"

text \<open>\<open>sub in s\<close> on strings: \<open>sub\<close> starts at some position of \<open>s\<close>.\<close>

fun py_in :: "ustring \<Rightarrow> ustring \<Rightarrow> bool" where
  "py_in sub [] = (sub = [])"
| "py_in sub (c # cs) = (prefix sub (c # cs) \<or> py_in sub cs)"

section \<open>The keyword check (\<open>WebMonitor.check_for_keywords\<close>)\<close>

text \<open>
  Line 194: \<open>lines = [line.strip() for line in text.split('\n') if line.strip()]\<close>.
\<close>

definition extract_lines :: "unicode \<Rightarrow> ustring \<Rightarrow> ustring list" where
  "extract_lines py text =
     map (py_strip py) (filter (\<lambda>line. py_strip py line \<noteq> []) (split_newline text))"

text \<open>
  Line 199: \<open>all(word.lower() in line_lower for word in self.search_strings)\<close>.
\<close>

definition all_words_in :: "unicode \<Rightarrow> ustring list \<Rightarrow> ustring \<Rightarrow> bool" where
  "all_words_in py words line_lower =
     list_all (\<lambda>word. py_in (str_lower py word) line_lower) words"

text \<open>
  Line 200: \<open>normalized_line = ' '.join(line_lower.split())\<close>, the fingerprint of a
  line, computed from the lowercased line.
\<close>

definition normalized :: "unicode \<Rightarrow> ustring \<Rightarrow> ustring" where
  "normalized py line_lower = join_space (py_split py line_lower)"

text \<open>
  Lines 196 to 203: the loop over \<open>lines\<close>. The pair carried through the loop is
  \<open>new_matching_lines\<close> and \<open>self.seen_matches\<close>.
\<close>

fun scan_lines ::
    "unicode \<Rightarrow> ustring list \<Rightarrow> ustring list \<times> ustring set \<Rightarrow> ustring list \<Rightarrow> ustring list \<times> ustring set" where
  "scan_lines py words (new_matching_lines, seen) [] = (new_matching_lines, seen)"
| "scan_lines py words (new_matching_lines, seen) (line # rest) =
     (let line_lower = str_lower py line in
      if all_words_in py words line_lower then
        (let normalized_line = normalized py line_lower in
         if normalized_line \<notin> seen then
           scan_lines py words (new_matching_lines @ [line], insert normalized_line seen) rest
         else scan_lines py words (new_matching_lines, seen) rest)
      else scan_lines py words (new_matching_lines, seen) rest)"

text \<open>The lines a call returns and the set it leaves, from an empty result list.\<close>

definition new_matches_of :: "unicode \<Rightarrow> ustring list \<Rightarrow> ustring set \<Rightarrow> ustring list \<Rightarrow> ustring list" where
  "new_matches_of py words seen lines = fst (scan_lines py words ([], seen) lines)"

definition seen_after :: "unicode \<Rightarrow> ustring list \<Rightarrow> ustring set \<Rightarrow> ustring list \<Rightarrow> ustring set" where
  "seen_after py words seen lines = snd (scan_lines py words ([], seen) lines)"

section \<open>The store of seen matches\<close>

text \<open>
  What the monitor leaves behind, in order: an error or a warning in the log, an attempt
  to write the set of seen matches to its file, an attempt to send a mail about some lines,
  a sleep of so many seconds.
\<close>

datatype event =
    Log_error
  | Log_warning
  | Write_seen "ustring set"
  | Send_mail "ustring list"
  | Sleep int

text \<open>
  The file \<open>/app/config/seen_matches.json\<close> as \<open>load_seen_matches\<close> finds it:
  not there; there but \<open>open\<close> raises; there but \<open>json.load\<close> or \<open>set(...)\<close>
  raises; or a JSON list of strings, of which \<open>set(...)\<close> keeps the set.
\<close>

datatype record_file = Absent | Unreadable | Malformed | Stored "ustring set"

datatype exn = OSError | ValueError | RuntimeError

record monitor =
  search_strings :: "ustring list"
  check_interval :: int
  seen_matches :: "ustring set"
  seen_matches_file :: record_file
  events :: "event list"

text \<open>
  \<open>save_seen_matches\<close> (lines 156 to 162). \<open>write_ok\<close> says whether opening the file
  for writing and dumping the list go through; when they do not, the exception is
  caught and logged, and the file is taken to be as it was.
\<close>

definition save_seen_matches :: "bool \<Rightarrow> monitor \<Rightarrow> monitor" where
  "save_seen_matches write_ok m =
     (if write_ok
      then m\<lparr>seen_matches_file := Stored (seen_matches m),
             events := events m @ [Write_seen (seen_matches m)]\<rparr>
      else m\<lparr>events := events m @ [Write_seen (seen_matches m), Log_error]\<rparr>)"

text \<open>
  The \<open>try\<close> block of \<open>load_seen_matches\<close> (lines 145 to 151): \<open>os.makedirs\<close>
  may raise, then the file is read if it exists, and created empty if it does not.
\<close>

definition load_seen_matches_try :: "bool \<Rightarrow> bool \<Rightarrow> monitor \<Rightarrow> exn + monitor" where
  "load_seen_matches_try makedirs_ok write_ok m =
     (if \<not> makedirs_ok then Inl OSError
      else (case seen_matches_file m of
              Unreadable \<Rightarrow> Inl OSError
            | Malformed \<Rightarrow> Inl ValueError
            | Stored fingerprints \<Rightarrow> Inr (m\<lparr>seen_matches := fingerprints\<rparr>)
            | Absent \<Rightarrow> Inr (save_seen_matches write_ok (m\<lparr>seen_matches := {}\<rparr>))))"

text \<open>
  \<open>load_seen_matches\<close> (lines 142 to 154): the \<open>try\<close> block under
  \<open>except Exception\<close>, which logs and sets the empty set. \<open>Inl\<close> would be an
  exception leaving the method.
\<close>

definition load_seen_matches :: "bool \<Rightarrow> bool \<Rightarrow> monitor \<Rightarrow> exn + monitor" where
  "load_seen_matches makedirs_ok write_ok m =
     (case load_seen_matches_try makedirs_ok write_ok m of
        Inr m' \<Rightarrow> Inr m'
      | Inl e \<Rightarrow> Inr (m\<lparr>seen_matches := {}, events := events m @ [Log_error]\<rparr>))"

section \<open>\<open>check_for_keywords\<close> and \<open>send_email_notification\<close>\<close>

text \<open>
  \<open>check_for_keywords\<close> (lines 182 to 211). \<open>html_content\<close> is \<open>None\<close> or a
  string. \<open>get_text\<close> stands for BeautifulSoup (lines 188 to 193): the visible text of
  the markup, or \<open>None\<close> when parsing raises, which the method catches and logs. The
  result is the triple of \<open>found\<close>, the new matching lines and the monitor as the call
  leaves it.
\<close>

definition check_for_keywords ::
    "unicode \<Rightarrow> (ustring \<Rightarrow> ustring option) \<Rightarrow> bool \<Rightarrow> monitor \<Rightarrow> ustring option
       \<Rightarrow> bool \<times> ustring list \<times> monitor" where
  "check_for_keywords py get_text write_ok m html_content =
     (case html_content of
        None \<Rightarrow> (False, [], m)
      | Some html \<Rightarrow>
          if html = [] then (False, [], m)
          else (case get_text html of
                  None \<Rightarrow> (False, [], m\<lparr>events := events m @ [Log_error]\<rparr>)
                | Some text \<Rightarrow>
                    (let lines = extract_lines py text;
                         (new_matching_lines, seen) =
                            scan_lines py (search_strings m) ([], seen_matches m) lines;
                         m1 = m\<lparr>seen_matches := seen\<rparr>;
                         m2 = (if new_matching_lines \<noteq> [] then save_seen_matches write_ok m1 else m1)
                     in (new_matching_lines \<noteq> [], new_matching_lines, m2))))"

text \<open>
  \<open>send_email_notification\<close> (lines 213 to 245), as far as the loop sees it: one
  attempt to send a mail about all the lines, \<open>True\<close> when it went through,
  \<open>False\<close> and an error in the log when it did not. The wording of the mail is left out.
\<close>

definition send_email_notification :: "bool \<Rightarrow> monitor \<Rightarrow> ustring list \<Rightarrow> bool \<times> monitor" where
  "send_email_notification send_ok m matching_lines =
     (if send_ok then (True, m\<lparr>events := events m @ [Send_mail matching_lines]\<rparr>)
      else (False, m\<lparr>events := events m @ [Send_mail matching_lines, Log_error]\<rparr>))"

section \<open>The polling loop (\<open>start_monitoring\<close>)\<close>

text \<open>
  What the world answers in one iteration: \<open>fetch_page_content\<close> returns the page,
  returns \<open>None\<close> (a timeout or a request error, caught there), or lets another
  exception through to the loop; whether the write of the seen matches and the mail go
  through.
\<close>

datatype fetched = Page ustring | No_page | Fetch_raised

record env =
  fetched :: fetched
  write_ok :: bool
  send_ok :: bool

record loop_state =
  mon :: monitor
  consecutive_errors :: int

text \<open>
  \<open>fetch_page_content\<close> (lines 164 to 180): the text of the response; or \<open>None\<close>
  with an error in the log, when the request timed out or failed (lines 175 to 180); or
  an exception of another kind, which nothing there catches.
\<close>

fun fetch_page_content :: "env \<Rightarrow> monitor \<Rightarrow> exn + (ustring option \<times> monitor)" where
  "fetch_page_content e m =
     (case fetched e of
        Page html \<Rightarrow> Inr (Some html, m)
      | No_page \<Rightarrow> Inr (None, m\<lparr>events := events m @ [Log_error]\<rparr>)
      | Fetch_raised \<Rightarrow> Inl RuntimeError)"

text \<open>
  Lines 260 to 273, with \<open>content\<close> what \<open>fetch_page_content\<close> returned:
  \<open>if content:\<close> fails on \<open>None\<close> and on the empty string.
\<close>

definition loop_body ::
    "unicode \<Rightarrow> (ustring \<Rightarrow> ustring option) \<Rightarrow> env \<Rightarrow> ustring option \<Rightarrow> loop_state \<Rightarrow> loop_state" where
  "loop_body py get_text e content st =
     (if content \<noteq> None \<and> content \<noteq> Some [] then
        (let (found, new_matches, m1) =
               check_for_keywords py get_text (write_ok e) (mon st) content in
         if new_matches \<noteq> [] then
           (let (sent, m2) = send_email_notification (send_ok e) m1 new_matches in
            if sent then \<lparr>mon = m2, consecutive_errors = 0\<rparr>
            else \<lparr>mon = m2, consecutive_errors = consecutive_errors st + 1\<rparr>)
         else \<lparr>mon = m1, consecutive_errors = 0\<rparr>)
      else st\<lparr>consecutive_errors := consecutive_errors st + 1\<rparr>)"

text \<open>Lines 275 to 281: the sleep step.\<close>

definition sleep_step :: "loop_state \<Rightarrow> loop_state" where
  "sleep_step st =
     (let m = mon st in
      if consecutive_errors st > 5 then
        \<lparr>mon = m\<lparr>events := events m @ [Log_warning, Sleep (check_interval m * 2)]\<rparr>,
         consecutive_errors = 0\<rparr>
      else st\<lparr>mon := m\<lparr>events := events m @ [Sleep (check_interval m)]\<rparr>\<rparr>)"

text \<open>Lines 283 to 286: the handler of an exception that reached the loop.\<close>

definition unexpected_error :: "loop_state \<Rightarrow> loop_state" where
  "unexpected_error st =
     (let m = mon st in
      \<lparr>mon = m\<lparr>events := events m @ [Log_error, Sleep (check_interval m)]\<rparr>,
       consecutive_errors = consecutive_errors st + 1\<rparr>)"

text \<open>
  One pass through the body of \<open>while True\<close> (lines 258 to 286): the fetch of
  line 259, then either the handler or lines 260 to 281 on the monitor as the fetch left
  it.
\<close>

definition iteration ::
    "unicode \<Rightarrow> (ustring \<Rightarrow> ustring option) \<Rightarrow> env \<Rightarrow> loop_state \<Rightarrow> loop_state" where
  "iteration py get_text e st =
     (case fetch_page_content e (mon st) of
        Inl x \<Rightarrow> unexpected_error st
      | Inr (content, m) \<Rightarrow> sleep_step (loop_body py get_text e content (st\<lparr>mon := m\<rparr>)))"

text \<open>
  The loop runs until it is interrupted. A run is the list of what the world answered in
  each iteration made so far; \<open>run\<close> gives the state after them.
\<close>

fun run :: "unicode \<Rightarrow> (ustring \<Rightarrow> ustring option) \<Rightarrow> env list \<Rightarrow> loop_state \<Rightarrow> loop_state" where
  "run py get_text [] st = st"
| "run py get_text (e # es) st = run py get_text es (iteration py get_text e st)"

text \<open>Line 254: the counter starts at zero.\<close>

definition start_monitoring ::
    "unicode \<Rightarrow> (ustring \<Rightarrow> ustring option) \<Rightarrow> env list \<Rightarrow> monitor \<Rightarrow> loop_state" where
  "start_monitoring py get_text es m = run py get_text es \<lparr>mon = m, consecutive_errors = 0\<rparr>"

section \<open>Notions the statements use\<close>

text \<open>
  The whitespace-collapsed form of a trimmed line, in the words of the specification:
  every run of whitespace characters becomes a single space.
\<close>

fun collapse_ws :: "unicode \<Rightarrow> ustring \<Rightarrow> ustring" where
  "collapse_ws py [] = []"
| "collapse_ws py [c] = [if is_space py c then 32 else c]"
| "collapse_ws py (c # d # cs) =
     (if is_space py c
      then (if is_space py d then collapse_ws py (d # cs) else 32 # collapse_ws py (d # cs))
      else c # collapse_ws py (d # cs))"

text \<open>\<open>s.rstrip()\<close>: trailing whitespace removed; \<open>strip\<close> in two steps.\<close>

definition rstrip :: "unicode \<Rightarrow> ustring \<Rightarrow> ustring" where
  "rstrip py t = rev (dropWhile (is_space py) (rev t))"

text \<open>
  For the examples only, one value of the parameter: \<open>str.lower\<close> and the whitespace
  test of Python 3 as they are on text of code points below 256 (Latin-1). There
  \<open>str.lower\<close> works character by character: it maps \<open>A..Z\<close> and the capital
  letters \<open>U+00C0..U+00DE\<close> (all but the multiplication sign \<open>U+00D7\<close>) to the
  code point 32 above and leaves the rest alone. The whitespace characters are
  \<open>U+0009..U+000D\<close>, \<open>U+001C..U+0020\<close>, \<open>U+0085\<close>, \<open>U+00A0\<close>, and
  above the Latin-1 range \<open>U+1680\<close>, \<open>U+2000..U+200A\<close>, \<open>U+2028\<close>,
  \<open>U+2029\<close>, \<open>U+202F\<close>, \<open>U+205F\<close> and \<open>U+3000\<close>. \<open>ustr\<close> writes a
  string of code points below 256 with its characters.
\<close>

definition ustr :: "string \<Rightarrow> ustring" where
  "ustr s = map of_char s"

definition latin1_lower :: "ustring \<Rightarrow> ustring" where
  "latin1_lower s =
     map (\<lambda>c. if (65 \<le> c \<and> c \<le> 90) \<or> (192 \<le> c \<and> c \<le> 222 \<and> c \<noteq> 215) then c + 32 else c) s"

definition unicode_space :: "int \<Rightarrow> bool" where
  "unicode_space c =
     ((9 \<le> c \<and> c \<le> 13) \<or> (28 \<le> c \<and> c \<le> 32) \<or> c = 133 \<or> c = 160 \<or> c = 5760
      \<or> (8192 \<le> c \<and> c \<le> 8202) \<or> c = 8232 \<or> c = 8233 \<or> c = 8239 \<or> c = 8287 \<or> c = 12288)"

definition latin1 :: unicode where
  "latin1 = \<lparr>str_lower = latin1_lower, is_space = unicode_space\<rparr>"

text \<open>The end-to-end scenario of the specification: a monitor and a page text.\<close>

definition example_monitor :: monitor where
  "example_monitor =
     \<lparr>search_strings = [ustr ''pickup'', ustr ''alpha''], check_interval = 300, seen_matches = {},
      seen_matches_file = Stored {}, events = []\<rparr>"

definition example_page :: ustring where
  "example_page = ustr ''Ignore this line\<newline>New Pickup: Alpha Widget\<newline>Unrelated''"

text \<open>Answers of the world for one iteration, used in the examples.\<close>

definition no_page :: env where
  "no_page = \<lparr>fetched = No_page, write_ok = True, send_ok = True\<rparr>"

definition fetch_raises :: env where
  "fetch_raises = \<lparr>fetched = Fetch_raised, write_ok = True, send_ok = True\<rparr>"

definition mail_fails :: env where
  "mail_fails = \<lparr>fetched = Page example_page, write_ok = True, send_ok = False\<rparr>"

definition page_found :: env where
  "page_found = \<lparr>fetched = Page example_page, write_ok = True, send_ok = True\<rparr>"

text \<open>
  What one iteration adds to the events, and what a run adds.
\<close>

definition new_events ::
    "unicode \<Rightarrow> (ustring \<Rightarrow> ustring option) \<Rightarrow> env list \<Rightarrow> loop_state \<Rightarrow> event list" where
  "new_events py get_text es st =
     drop (length (events (mon st))) (events (mon (run py get_text es st)))"

text \<open>
  A streak of failed iterations from a state: each of them reaches the sleep step with
  the counter one above what it was when the iteration began.
\<close>

fun failed_streak ::
    "unicode \<Rightarrow> (ustring \<Rightarrow> ustring option) \<Rightarrow> env list \<Rightarrow> loop_state \<Rightarrow> bool" where
  "failed_streak py get_text [] st = True"
| "failed_streak py get_text (e # es) st =
     ((case fetch_page_content e (mon st) of
         Inl x \<Rightarrow> False
       | Inr (content, m) \<Rightarrow>
           consecutive_errors (loop_body py get_text e content (st\<lparr>mon := m\<rparr>))
             = consecutive_errors st + 1)
      \<and> failed_streak py get_text es (iteration py get_text e st))"

text \<open>The durations of the sleeps among some events, in order.\<close>

fun sleeps :: "event list \<Rightarrow> int list" where
  "sleeps [] = []"
| "sleeps (Sleep d # evs) = d # sleeps evs"
| "sleeps (ev # evs) = sleeps evs"

text \<open>The sets written to the file among some events, in order.\<close>

fun writes :: "event list \<Rightarrow> ustring set list" where
  "writes [] = []"
| "writes (Write_seen fingerprints # evs) = fingerprints # writes evs"
| "writes (ev # evs) = writes evs"

section \<open>Facts about the string operations\<close>

lemma py_in_iff: "py_in sub s \<longleftrightarrow> (\<exists>pre suf. s = pre @ sub @ suf)"
proof (induction s)
  case Nil
  then show ?case by auto
next
  case (Cons c cs)
  show ?case
  proof
    assume "py_in sub (c # cs)"
    then consider "prefix sub (c # cs)" | "py_in sub cs" by auto
    then show "\<exists>pre suf. c # cs = pre @ sub @ suf"
    proof cases
      case 1
      then obtain suf where "c # cs = sub @ suf" by (auto simp: prefix_def)
      then have "c # cs = [] @ sub @ suf" by simp
      then show ?thesis by blast
    next
      case 2
      with Cons.IH obtain pre suf where "cs = pre @ sub @ suf" by blast
      then have "c # cs = (c # pre) @ sub @ suf" by simp
      then show ?thesis by blast
    qed
  next
    assume "\<exists>pre suf. c # cs = pre @ sub @ suf"
    then obtain pre suf where eq: "c # cs = pre @ sub @ suf" by blast
    show "py_in sub (c # cs)"
    proof (cases pre)
      case Nil
      with eq have "prefix sub (c # cs)" by (simp add: prefix_def)
      then show ?thesis by simp
    next
      case (Cons p pre')
      with eq have "cs = pre' @ sub @ suf" by simp
      with Cons.IH have "py_in sub cs" by blast
      then show ?thesis by simp
    qed
  qed
qed

lemma all_words_in_iff:
  "all_words_in py ts line_lower \<longleftrightarrow>
     (\<forall>word \<in> set ts. \<exists>pre suf. line_lower = pre @ str_lower py word @ suf)"
  by (simp add: all_words_in_def list_all_iff py_in_iff)

lemma py_strip_rstrip: "py_strip py s = rstrip py (dropWhile (is_space py) s)"
  by (simp add: py_strip_def rstrip_def)

lemma rstrip_append_keep:
  assumes "x \<in> set t" "\<not> is_space py x"
  shows "rstrip py (u @ t) = u @ rstrip py t"
proof -
  from assms have "dropWhile (is_space py) (rev t @ rev u) = dropWhile (is_space py) (rev t) @ rev u"
    by (intro dropWhile_append1) auto
  then show ?thesis by (simp add: rstrip_def)
qed

lemma rstrip_append_drop:
  assumes "\<forall>x \<in> set t. is_space py x"
  shows "rstrip py (u @ t) = rstrip py u"
proof -
  from assms have "dropWhile (is_space py) (rev t @ rev u) = dropWhile (is_space py) (rev u)"
    by (intro dropWhile_append2) auto
  then show ?thesis by (simp add: rstrip_def)
qed

lemma rstrip_no_space:
  assumes "\<forall>x \<in> set u. \<not> is_space py x"
  shows "rstrip py u = u"
proof (cases "rev u")
  case Nil
  then show ?thesis by (simp add: rstrip_def)
next
  case (Cons a as)
  then have "a \<in> set u" by (metis list.set_intros(1) set_rev)
  with assms have "\<not> is_space py a" by blast
  with Cons have "dropWhile (is_space py) (rev u) = rev u" by simp
  then show ?thesis by (simp add: rstrip_def)
qed

lemma rstrip_Cons_nonspace:
  assumes "\<not> is_space py y"
  shows "rstrip py (y # t) = y # rstrip py t"
proof (cases "\<forall>x \<in> set t. is_space py x")
  case True
  have "rstrip py ([y] @ t) = rstrip py [y]" by (rule rstrip_append_drop [OF True])
  moreover have "rstrip py ([] @ t) = rstrip py []" by (rule rstrip_append_drop [OF True])
  ultimately show ?thesis using assms by (simp add: rstrip_def)
next
  case False
  then obtain x where "x \<in> set t" "\<not> is_space py x" by blast
  from rstrip_append_keep [OF this, of "[y]"] show ?thesis by simp
qed

lemma collapse_ws_nonspace: "\<not> is_space py a \<Longrightarrow> collapse_ws py (a # t) = a # collapse_ws py t"
  by (cases t) auto

lemma collapse_ws_no_space_prefix:
  "\<forall>x \<in> set u. \<not> is_space py x \<Longrightarrow> collapse_ws py (u @ t) = u @ collapse_ws py t"
  by (induction u) (auto simp: collapse_ws_nonspace)

lemma collapse_ws_space_run:
  "sp \<noteq> [] \<Longrightarrow> \<forall>x \<in> set sp. is_space py x \<Longrightarrow> \<not> is_space py y \<Longrightarrow>
     collapse_ws py (sp @ y # t) = 32 # collapse_ws py (y # t)"
proof (induction sp)
  case Nil
  then show ?case by simp
next
  case (Cons a sp)
  show ?case
  proof (cases sp)
    case Nil
    with Cons.prems show ?thesis by simp
  next
    case (Cons b sp')
    with Cons.prems Cons.IH show ?thesis by simp
  qed
qed

lemma py_split_Nil_iff: "py_split py s = [] \<longleftrightarrow> dropWhile (is_space py) s = []"
proof (cases "dropWhile (is_space py) s")
  case Nil
  have "py_split py s = []" by (subst py_split.simps) (simp only: Nil list.case)
  with Nil show ?thesis by simp
next
  case (Cons c cs)
  have "py_split py s \<noteq> []" by (subst py_split.simps) (simp only: Cons list.case, simp)
  with Cons show ?thesis by simp
qed

lemma normalized_collapse: "normalized py s = collapse_ws py (py_strip py s)"
  unfolding normalized_def
proof (induction py s rule: py_split.induct)
  case (1 py s)
  show ?case
  proof (cases "dropWhile (is_space py) s")
    case Nil
    then have "py_split py s = []" by (simp only: py_split_Nil_iff)
    with Nil show ?thesis by (simp only: py_strip_def join_space.simps rev.simps dropWhile.simps collapse_ws.simps)
  next
    case (Cons c cs)
    define w where "w = takeWhile (\<lambda>x. \<not> is_space py x) cs"
    define r where "r = dropWhile (\<lambda>x. \<not> is_space py x) cs"
    have c: "\<not> is_space py c" using Cons by (metis hd_dropWhile list.sel(1) list.distinct(1))
    have w: "\<forall>x \<in> set (c # w). \<not> is_space py x"
      using c by (auto simp: w_def dest: set_takeWhileD)
    have cs: "cs = w @ r" by (simp add: w_def r_def)
    have split: "py_split py s = (c # w) # py_split py r"
      using Cons by (subst py_split.simps) (simp add: w_def r_def)
    have IH: "join_space (py_split py r) = collapse_ws py (py_strip py r)"
      using "1.IH" [OF Cons] by (simp add: r_def)
    have strip: "py_strip py s = rstrip py ((c # w) @ r)"
      using Cons cs by (simp add: py_strip_rstrip)
    show ?thesis
    proof (cases "dropWhile (is_space py) r")
      case Nil
      then have allsp: "\<forall>x \<in> set r. is_space py x"
        by (metis dropWhile_eq_Nil_conv)
      have "py_split py r = []" using Nil by (simp add: py_split_Nil_iff)
      then have "join_space (py_split py s) = c # w" by (simp add: split)
      moreover have "py_strip py s = c # w"
        unfolding strip using rstrip_append_drop [OF allsp, of "c # w"] rstrip_no_space [OF w] by simp
      moreover have "collapse_ws py (c # w) = c # w"
        using collapse_ws_no_space_prefix [OF w, of "[]"] by simp
      ultimately show ?thesis by simp
    next
      case (Cons y t)
      define sp where "sp = takeWhile (is_space py) r"
      have r: "r = sp @ y # t" using Cons by (simp add: sp_def flip: Cons)
      have y: "\<not> is_space py y" using Cons by (metis hd_dropWhile list.sel(1) list.distinct(1))
      have spall: "\<forall>x \<in> set sp. is_space py x" by (auto simp: sp_def dest: set_takeWhileD)
      have "r \<noteq> []" using r by simp
      then have "is_space py (hd r)"
        unfolding r_def by (metis hd_dropWhile)
      then have spne: "sp \<noteq> []"
        using \<open>r \<noteq> []\<close> by (cases r) (auto simp: sp_def)
      obtain v vs where pr: "py_split py r = v # vs"
        using Cons py_split_Nil_iff [of py r] by (cases "py_split py r") auto
      have "join_space (py_split py s) = (c # w) @ 32 # join_space (py_split py r)"
        by (simp add: split pr)
      also have "\<dots> = (c # w) @ 32 # collapse_ws py (py_strip py r)" by (simp only: IH)
      also have "py_strip py r = rstrip py (y # t)" by (simp add: py_strip_rstrip Cons)
      finally have lhs: "join_space (py_split py s) = (c # w) @ 32 # collapse_ws py (rstrip py (y # t))" .
      have keep: "rstrip py (u @ y # t) = u @ rstrip py (y # t)" for u
        using rstrip_append_keep [of y "y # t" py u] y by simp
      obtain t' where t': "rstrip py (y # t) = y # t'"
        using rstrip_Cons_nonspace [OF y] by blast
      have "py_strip py s = (c # w) @ sp @ rstrip py (y # t)"
        unfolding strip r using keep [of "(c # w) @ sp"] by simp
      then have "collapse_ws py (py_strip py s) = (c # w) @ collapse_ws py (sp @ y # t')"
        using collapse_ws_no_space_prefix [OF w] by (simp add: t')
      also have "\<dots> = (c # w) @ 32 # collapse_ws py (y # t')"
        using collapse_ws_space_run [OF spne spall y] by simp
      finally show ?thesis by (simp add: lhs t')
    qed
  qed
qed

lemma py_strip_idem: "py_strip py (py_strip py s) = py_strip py s"
proof -
  have "dropWhile (is_space py) (rstrip py t) = rstrip py t" if "t = dropWhile (is_space py) s" for t
  proof (cases t)
    case Nil
    then show ?thesis by (simp add: rstrip_def)
  next
    case (Cons y t')
    with that have "\<not> is_space py y" by (metis hd_dropWhile list.sel(1) list.distinct(1))
    then show ?thesis by (simp add: Cons rstrip_Cons_nonspace)
  qed
  moreover have "rstrip py (rstrip py t) = rstrip py t" for t by (simp add: rstrip_def)
  ultimately show ?thesis by (simp add: py_strip_rstrip)
qed

lemma extract_lines_stripped: "l \<in> set (extract_lines py page) \<Longrightarrow> py_strip py l = l"
  by (auto simp: extract_lines_def py_strip_idem)

lemma extract_lines_raw:
  "l \<in> set (extract_lines py page) \<Longrightarrow> \<exists>raw \<in> set (split_newline page). l = py_strip py raw"
  by (auto simp: extract_lines_def)

lemma normalized_trimmed:
  "py_strip py s = s \<Longrightarrow> normalized py s = collapse_ws py s"
  by (simp add: normalized_collapse)

section \<open>Facts about the loop over the lines\<close>

lemma scan_lines_acc:
  "scan_lines py ts (acc, seen) ls =
     (acc @ fst (scan_lines py ts ([], seen) ls), snd (scan_lines py ts ([], seen) ls))"
proof (induction ls arbitrary: acc seen)
  case Nil
  then show ?case by simp
next
  case (Cons l ls)
  show ?case
  proof (cases "all_words_in py ts (str_lower py l) \<and> normalized py (str_lower py l) \<notin> seen")
    case True
    then show ?thesis
      using Cons.IH [of "acc @ [l]" "insert (normalized py (str_lower py l)) seen"]
        Cons.IH [of "[l]" "insert (normalized py (str_lower py l)) seen"]
      by (simp add: Let_def)
  next
    case False
    then show ?thesis
      using Cons.IH [of acc seen] by (auto simp: Let_def)
  qed
qed

lemma new_matches_of_Nil [simp]: "new_matches_of py ts seen [] = []"
  by (simp add: new_matches_of_def)

lemma seen_after_Nil [simp]: "seen_after py ts seen [] = seen"
  by (simp add: seen_after_def)

lemma new_matches_of_Cons:
  "new_matches_of py ts seen (l # ls) =
     (if all_words_in py ts (str_lower py l) \<and> normalized py (str_lower py l) \<notin> seen
      then l # new_matches_of py ts (insert (normalized py (str_lower py l)) seen) ls
      else new_matches_of py ts seen ls)"
  using scan_lines_acc [of py ts "[l]" "insert (normalized py (str_lower py l)) seen" ls]
  by (auto simp: new_matches_of_def Let_def)

lemma seen_after_Cons:
  "seen_after py ts seen (l # ls) =
     (if all_words_in py ts (str_lower py l) \<and> normalized py (str_lower py l) \<notin> seen
      then seen_after py ts (insert (normalized py (str_lower py l)) seen) ls
      else seen_after py ts seen ls)"
  using scan_lines_acc [of py ts "[l]" "insert (normalized py (str_lower py l)) seen" ls]
  by (auto simp: seen_after_def Let_def)

lemma scan_lines_eq:
  "scan_lines py ts ([], seen) ls = (new_matches_of py ts seen ls, seen_after py ts seen ls)"
  by (simp add: new_matches_of_def seen_after_def)

lemma seen_after_eq:
  "seen_after py ts seen ls =
     seen \<union> {normalized py (str_lower py l) |l. l \<in> set ls \<and> all_words_in py ts (str_lower py l)}"
proof (induction ls arbitrary: seen)
  case Nil
  then show ?case by simp
next
  case (Cons l ls)
  show ?case
    unfolding seen_after_Cons Cons.IH by auto
qed

lemma new_matches_of_sound:
  "l \<in> set (new_matches_of py ts seen ls) \<Longrightarrow>
     l \<in> set ls \<and> all_words_in py ts (str_lower py l) \<and> normalized py (str_lower py l) \<notin> seen"
proof (induction ls arbitrary: seen)
  case Nil
  then show ?case by simp
next
  case (Cons a ls)
  show ?case
  proof (cases "all_words_in py ts (str_lower py a) \<and> normalized py (str_lower py a) \<notin> seen")
    case True
    with Cons.prems have "l = a \<or> l \<in> set (new_matches_of py ts (insert (normalized py (str_lower py a)) seen) ls)"
      by (simp add: new_matches_of_Cons)
    then show ?thesis
    proof
      assume "l = a"
      with True show ?thesis by simp
    next
      assume "l \<in> set (new_matches_of py ts (insert (normalized py (str_lower py a)) seen) ls)"
      from Cons.IH [OF this] show ?thesis by simp
    qed
  next
    case False
    with Cons.prems have "l \<in> set (new_matches_of py ts seen ls)"
      by (simp add: new_matches_of_Cons)
    from Cons.IH [OF this] show ?thesis by simp
  qed
qed

lemma new_matches_of_fingerprints:
  "{normalized py (str_lower py l) |l. l \<in> set (new_matches_of py ts seen ls)} =
     {normalized py (str_lower py l) |l. l \<in> set ls \<and> all_words_in py ts (str_lower py l)} - seen"
proof (induction ls arbitrary: seen)
  case Nil
  then show ?case by simp
next
  case (Cons a ls)
  show ?case
  proof (cases "all_words_in py ts (str_lower py a) \<and> normalized py (str_lower py a) \<notin> seen")
    case True
    have "{normalized py (str_lower py l) |l. l \<in> set (new_matches_of py ts seen (a # ls))} =
        insert (normalized py (str_lower py a))
          {normalized py (str_lower py l) |l. l \<in> set (new_matches_of py ts (insert (normalized py (str_lower py a)) seen) ls)}"
      using True by (auto simp: new_matches_of_Cons)
    also have "\<dots> = insert (normalized py (str_lower py a))
        ({normalized py (str_lower py l) |l. l \<in> set ls \<and> all_words_in py ts (str_lower py l)}
           - insert (normalized py (str_lower py a)) seen)"
      by (simp only: Cons.IH)
    also have "\<dots> = {normalized py (str_lower py l) |l. l \<in> set (a # ls) \<and> all_words_in py ts (str_lower py l)} - seen"
      using True by auto
    finally show ?thesis .
  next
    case False
    have skip: "new_matches_of py ts seen (a # ls) = new_matches_of py ts seen ls"
      unfolding new_matches_of_Cons using False by (rule if_not_P)
    have "{normalized py (str_lower py l) |l. l \<in> set (new_matches_of py ts seen (a # ls))} =
        {normalized py (str_lower py l) |l. l \<in> set ls \<and> all_words_in py ts (str_lower py l)} - seen"
      unfolding skip by (rule Cons.IH)
    also have "\<dots> = {normalized py (str_lower py l) |l. l \<in> set (a # ls) \<and> all_words_in py ts (str_lower py l)} - seen"
      using False by auto
    finally show ?thesis .
  qed
qed

lemma new_matches_of_append:
  "new_matches_of py ts seen (xs @ ys) =
     new_matches_of py ts seen xs @ new_matches_of py ts (seen_after py ts seen xs) ys"
  by (induction xs arbitrary: seen) (simp_all add: new_matches_of_Cons seen_after_Cons)

lemma seen_after_append:
  "seen_after py ts seen (xs @ ys) = seen_after py ts (seen_after py ts seen xs) ys"
  by (induction xs arbitrary: seen) (simp_all add: seen_after_Cons)

lemma new_matches_of_subseq: "subseq (new_matches_of py ts seen ls) ls"
  by (induction ls arbitrary: seen) (auto simp: new_matches_of_Cons intro: list_emb_Cons)

lemma new_matches_of_all_seen:
  "\<forall>l \<in> set ls. all_words_in py ts (str_lower py l) \<longrightarrow> normalized py (str_lower py l) \<in> seen \<Longrightarrow>
     new_matches_of py ts seen ls = [] \<and> seen_after py ts seen ls = seen"
  by (induction ls) (auto simp: new_matches_of_Cons seen_after_Cons)

lemma new_matches_of_again:
  "new_matches_of py ts (seen_after py ts seen ls) ls = []
   \<and> seen_after py ts (seen_after py ts seen ls) ls = seen_after py ts seen ls"
proof (rule new_matches_of_all_seen)
  show "\<forall>l \<in> set ls. all_words_in py ts (str_lower py l) \<longrightarrow>
      normalized py (str_lower py l) \<in> seen_after py ts seen ls"
    unfolding seen_after_eq by blast
qed

lemma new_matches_of_distinct:
  "distinct (map (\<lambda>l. normalized py (str_lower py l)) (new_matches_of py ts seen ls))"
proof (induction ls arbitrary: seen)
  case Nil
  then show ?case by simp
next
  case (Cons a ls)
  show ?case
  proof (cases "all_words_in py ts (str_lower py a) \<and> normalized py (str_lower py a) \<notin> seen")
    case True
    have "normalized py (str_lower py a) \<notin>
        (\<lambda>l. normalized py (str_lower py l)) ` set (new_matches_of py ts (insert (normalized py (str_lower py a)) seen) ls)"
      using new_matches_of_sound [of _ py ts "insert (normalized py (str_lower py a)) seen" ls] by force
    with True Cons.IH show ?thesis by (simp add: new_matches_of_Cons)
  next
    case False
    have skip: "new_matches_of py ts seen (a # ls) = new_matches_of py ts seen ls"
      unfolding new_matches_of_Cons using False by (rule if_not_P)
    show ?thesis unfolding skip by (rule Cons.IH)
  qed
qed

lemma new_matches_of_Nil_iff:
  "new_matches_of py ts seen ls = [] \<longleftrightarrow> seen_after py ts seen ls = seen"
proof
  assume "new_matches_of py ts seen ls = []"
  then have "{normalized py (str_lower py l) |l. l \<in> set ls \<and> all_words_in py ts (str_lower py l)} - seen = {}"
    using new_matches_of_fingerprints [of py ts seen ls] by simp
  then show "seen_after py ts seen ls = seen" unfolding seen_after_eq by blast
next
  assume "seen_after py ts seen ls = seen"
  then have "\<forall>l \<in> set ls. all_words_in py ts (str_lower py l) \<longrightarrow> normalized py (str_lower py l) \<in> seen"
    unfolding seen_after_eq by blast
  then show "new_matches_of py ts seen ls = []" by (simp add: new_matches_of_all_seen)
qed


lemma scan_lines_seen_duplicate:
  assumes "all_words_in py ts (str_lower py a)" "normalized py (str_lower py a) = normalized py (str_lower py b)"
  shows "scan_lines py ts (acc, seen) (a # b # rest) = scan_lines py ts (acc, seen) (a # rest)"
  using assms by (simp add: Let_def)

section \<open>Facts about \<open>check_for_keywords\<close>\<close>

lemma check_for_keywords_text:
  assumes "html \<noteq> []" "get_text html = Some text"
  shows "check_for_keywords py get_text ok m (Some html) =
    (let new = new_matches_of py (search_strings m) (seen_matches m) (extract_lines py text);
         m1 = m\<lparr>seen_matches := seen_after py (search_strings m) (seen_matches m) (extract_lines py text)\<rparr>
     in (new \<noteq> [], new, if new \<noteq> [] then save_seen_matches ok m1 else m1))"
  using assms by (simp add: check_for_keywords_def scan_lines_eq Let_def)

lemma check_for_keywords_no_text:
  assumes "html_content = None \<or> html_content = Some [] \<or> (\<exists>html. html_content = Some html \<and> get_text html = None)"
  shows "fst (snd (check_for_keywords py get_text ok m html_content)) = []
    \<and> seen_matches (snd (snd (check_for_keywords py get_text ok m html_content))) = seen_matches m
    \<and> search_strings (snd (snd (check_for_keywords py get_text ok m html_content))) = search_strings m
    \<and> seen_matches_file (snd (snd (check_for_keywords py get_text ok m html_content))) = seen_matches_file m
    \<and> check_interval (snd (snd (check_for_keywords py get_text ok m html_content))) = check_interval m"
  using assms by (auto simp: check_for_keywords_def split: option.splits)

lemma save_seen_matches_fields [simp]:
  "seen_matches (save_seen_matches ok m) = seen_matches m"
  "search_strings (save_seen_matches ok m) = search_strings m"
  "check_interval (save_seen_matches ok m) = check_interval m"
  by (simp_all add: save_seen_matches_def)

lemma check_cases:
  obtains (no_text) "html_content = None \<or> html_content = Some [] \<or> (\<exists>html. html_content = Some html \<and> get_text html = None)"
  | (parsed) html page where "html_content = Some html" "html \<noteq> []" "get_text html = Some page"
  by (cases html_content; cases "get_text (the html_content)") auto

section \<open>Facts about the polling loop\<close>

lemma sleep_step_mon [simp]:
  "seen_matches (mon (sleep_step st)) = seen_matches (mon st)"
  "seen_matches_file (mon (sleep_step st)) = seen_matches_file (mon st)"
  "check_interval (mon (sleep_step st)) = check_interval (mon st)"
  "search_strings (mon (sleep_step st)) = search_strings (mon st)"
  by (simp_all add: sleep_step_def Let_def)

lemma sleep_step_events:
  "events (mon (sleep_step st)) = events (mon st) @
     (if consecutive_errors st > 5 then [Log_warning, Sleep (check_interval (mon st) * 2)]
      else [Sleep (check_interval (mon st))])"
  by (simp add: sleep_step_def Let_def)

lemma sleep_step_errors:
  "consecutive_errors (sleep_step st) = (if consecutive_errors st > 5 then 0 else consecutive_errors st)"
  by (simp add: sleep_step_def Let_def)

lemma unexpected_error_mon [simp]:
  "seen_matches (mon (unexpected_error st)) = seen_matches (mon st)"
  "seen_matches_file (mon (unexpected_error st)) = seen_matches_file (mon st)"
  "check_interval (mon (unexpected_error st)) = check_interval (mon st)"
  "search_strings (mon (unexpected_error st)) = search_strings (mon st)"
  "events (mon (unexpected_error st)) = events (mon st) @ [Log_error, Sleep (check_interval (mon st))]"
  "consecutive_errors (unexpected_error st) = consecutive_errors st + 1"
  by (simp_all add: unexpected_error_def Let_def)

lemma loop_body_no_content:
  "content = None \<or> content = Some [] \<Longrightarrow>
     loop_body py get_text e content st = st\<lparr>consecutive_errors := consecutive_errors st + 1\<rparr>"
  by (auto simp: loop_body_def)

lemma loop_body_parse_error:
  "html \<noteq> [] \<Longrightarrow> get_text html = None \<Longrightarrow>
     loop_body py get_text e (Some html) st =
       \<lparr>mon = (mon st)\<lparr>events := events (mon st) @ [Log_error]\<rparr>, consecutive_errors = 0\<rparr>"
  by (simp add: loop_body_def check_for_keywords_def)

lemma loop_body_parsed:
  assumes "html \<noteq> []" "get_text html = Some page"
  shows "loop_body py get_text e (Some html) st =
     (let new = new_matches_of py (search_strings (mon st)) (seen_matches (mon st)) (extract_lines py page);
          m1 = (mon st)\<lparr>seen_matches :=
                 seen_after py (search_strings (mon st)) (seen_matches (mon st)) (extract_lines py page)\<rparr>
      in if new = [] then \<lparr>mon = m1, consecutive_errors = 0\<rparr>
         else \<lparr>mon = snd (send_email_notification (send_ok e) (save_seen_matches (write_ok e) m1) new),
               consecutive_errors = (if send_ok e then 0 else consecutive_errors st + 1)\<rparr>)"
  using assms
  by (simp add: loop_body_def check_for_keywords_text Let_def send_email_notification_def)

lemma send_email_notification_mon [simp]:
  "seen_matches (snd (send_email_notification ok m ls)) = seen_matches m"
  "seen_matches_file (snd (send_email_notification ok m ls)) = seen_matches_file m"
  "check_interval (snd (send_email_notification ok m ls)) = check_interval m"
  "search_strings (snd (send_email_notification ok m ls)) = search_strings m"
  "events (snd (send_email_notification ok m ls)) =
     events m @ Send_mail ls # (if ok then [] else [Log_error])"
  by (simp_all add: send_email_notification_def)

lemma save_seen_matches_more [simp]:
  "seen_matches_file (save_seen_matches ok m) =
     (if ok then Stored (seen_matches m) else seen_matches_file m)"
  "events (save_seen_matches ok m) =
     events m @ Write_seen (seen_matches m) # (if ok then [] else [Log_error])"
  by (simp_all add: save_seen_matches_def)

lemma writes_append [simp]: "writes (xs @ ys) = writes xs @ writes ys"
  by (induction xs rule: writes.induct) simp_all

lemma sleeps_append [simp]: "sleeps (xs @ ys) = sleeps xs @ sleeps ys"
  by (induction xs rule: sleeps.induct) simp_all

lemma content_cases:
  obtains (no_content) "content = None \<or> content = Some []"
  | (parse_error) html where "content = Some html" "html \<noteq> []" "get_text html = None"
  | (parsed) html page where "content = Some html" "html \<noteq> []" "get_text html = Some page"
  by (cases content; cases "get_text (the content)") auto

lemma loop_body_check_interval [simp]:
  "check_interval (mon (loop_body py get_text e content st)) = check_interval (mon st)"
  by (cases rule: content_cases [where content = content and get_text = get_text])
     (auto simp: loop_body_no_content loop_body_parse_error loop_body_parsed Let_def)

lemma loop_body_search_strings [simp]:
  "search_strings (mon (loop_body py get_text e content st)) = search_strings (mon st)"
  by (cases rule: content_cases [where content = content and get_text = get_text])
     (auto simp: loop_body_no_content loop_body_parse_error loop_body_parsed Let_def)

lemma loop_body_errors_le:
  "0 \<le> consecutive_errors st \<Longrightarrow>
     0 \<le> consecutive_errors (loop_body py get_text e content st)
     \<and> consecutive_errors (loop_body py get_text e content st) \<le> consecutive_errors st + 1"
  by (cases rule: content_cases [where content = content and get_text = get_text])
     (auto simp: loop_body_no_content loop_body_parse_error loop_body_parsed Let_def)

lemma loop_body_sleeps:
  "\<exists>evs. events (mon (loop_body py get_text e content st)) = events (mon st) @ evs \<and> sleeps evs = []"
  by (cases rule: content_cases [where content = content and get_text = get_text])
     (auto simp: loop_body_no_content loop_body_parse_error loop_body_parsed Let_def)

lemma fetch_page_content_Inr:
  assumes "fetch_page_content e m = Inr (content, m')"
  shows "check_interval m' = check_interval m"
    and "search_strings m' = search_strings m"
    and "seen_matches m' = seen_matches m"
    and "seen_matches_file m' = seen_matches_file m"
    and "\<exists>evs. events m' = events m @ evs \<and> sleeps evs = [] \<and> writes evs = []"
    and "content \<noteq> None \<Longrightarrow> m' = m"
    and "fetched e \<noteq> Fetch_raised"
  using assms by (auto split: fetched.splits)

lemma fetch_page_content_not_raised:
  "fetched e \<noteq> Fetch_raised \<Longrightarrow> \<exists>content m'. fetch_page_content e m = Inr (content, m')"
  by (auto split: fetched.splits)

declare fetch_page_content.simps [simp del]

lemma iteration_Inl:
  "fetch_page_content e (mon st) = Inl x \<Longrightarrow> iteration py get_text e st = unexpected_error st"
  by (simp add: iteration_def)

lemma iteration_Inr:
  "fetch_page_content e (mon st) = Inr (content, m) \<Longrightarrow>
     iteration py get_text e st = sleep_step (loop_body py get_text e content (st\<lparr>mon := m\<rparr>))"
  by (simp add: iteration_def)

lemma fetch_cases:
  obtains (raised) x where "fetch_page_content e m = Inl x"
  | (returned) content m' where "fetch_page_content e m = Inr (content, m')"
  by (cases "fetch_page_content e m") auto

lemma iteration_check_interval [simp]:
  "check_interval (mon (iteration py get_text e st)) = check_interval (mon st)"
proof (cases rule: fetch_cases [where e = e and m = "mon st"])
  case (raised x)
  then show ?thesis by (simp add: iteration_Inl)
next
  case (returned content m')
  then show ?thesis by (simp add: iteration_Inr fetch_page_content_Inr(1))
qed

lemma new_events_single:
  "events (mon (iteration py get_text e st)) = events (mon st) @ evs \<Longrightarrow>
     new_events py get_text [e] st = evs"
  by (simp add: new_events_def)

lemma iteration_at_sleep_step:
  assumes "fetch_page_content e (mon st) = Inr (content, m)"
  shows "consecutive_errors (iteration py get_text e st) =
      (if 5 < consecutive_errors (loop_body py get_text e content (st\<lparr>mon := m\<rparr>)) then 0
       else consecutive_errors (loop_body py get_text e content (st\<lparr>mon := m\<rparr>)))
    \<and> sleeps (new_events py get_text [e] st) =
      [if 5 < consecutive_errors (loop_body py get_text e content (st\<lparr>mon := m\<rparr>))
       then check_interval (mon st) * 2 else check_interval (mon st)]"
proof -
  let ?b = "loop_body py get_text e content (st\<lparr>mon := m\<rparr>)"
  obtain evs0 where evs0: "events m = events (mon st) @ evs0" "sleeps evs0 = []"
    using fetch_page_content_Inr(5) [OF assms] by blast
  obtain evs where evs: "events (mon ?b) = events m @ evs" "sleeps evs = []"
    using loop_body_sleeps [of py get_text e content "st\<lparr>mon := m\<rparr>"] by auto
  have i: "check_interval (mon ?b) = check_interval (mon st)"
    by (simp add: fetch_page_content_Inr(1) [OF assms])
  have "events (mon (iteration py get_text e st)) = events (mon st) @ (evs0 @ evs @
      (if 5 < consecutive_errors ?b then [Log_warning, Sleep (check_interval (mon st) * 2)]
       else [Sleep (check_interval (mon st))]))"
    using evs0 evs i by (simp add: iteration_Inr [OF assms] sleep_step_events)
  from new_events_single [OF this] evs0(2) evs(2) show ?thesis
    by (simp add: iteration_Inr [OF assms] sleep_step_errors)
qed

lemma iteration_sleeps:
  "\<exists>evs d. events (mon (iteration py get_text e st)) = events (mon st) @ evs \<and> sleeps evs = [d]
     \<and> (d = check_interval (mon st) \<or> d = check_interval (mon st) * 2)"
proof (cases rule: fetch_cases [where e = e and m = "mon st"])
  case (raised x)
  then show ?thesis by (simp add: iteration_Inl)
next
  case (returned content m)
  let ?b = "loop_body py get_text e content (st\<lparr>mon := m\<rparr>)"
  obtain evs0 where evs0: "events m = events (mon st) @ evs0" "sleeps evs0 = []"
    using fetch_page_content_Inr(5) [OF returned] by blast
  obtain evs where evs: "events (mon ?b) = events m @ evs" "sleeps evs = []"
    using loop_body_sleeps [of py get_text e content "st\<lparr>mon := m\<rparr>"] by auto
  have i: "check_interval (mon ?b) = check_interval (mon st)"
    by (simp add: fetch_page_content_Inr(1) [OF returned])
  show ?thesis
    using evs0 evs i by (auto simp: iteration_Inr [OF returned] sleep_step_events)
qed

lemma run_append: "run py get_text (es @ es') st = run py get_text es' (run py get_text es st)"
  by (induction es arbitrary: st) simp_all

lemma run_check_interval [simp]:
  "check_interval (mon (run py get_text es st)) = check_interval (mon st)"
  by (induction es arbitrary: st) simp_all

lemma run_sleeps:
  "\<exists>evs. events (mon (run py get_text es st)) = events (mon st) @ evs \<and> length (sleeps evs) = length es
     \<and> (\<forall>d \<in> set (sleeps evs). d = check_interval (mon st) \<or> d = check_interval (mon st) * 2)"
proof (induction es arbitrary: st)
  case Nil
  then show ?case by simp
next
  case (Cons e es)
  obtain evs d where 1: "events (mon (iteration py get_text e st)) = events (mon st) @ evs"
    "sleeps evs = [d]" "d = check_interval (mon st) \<or> d = check_interval (mon st) * 2"
    using iteration_sleeps by blast
  obtain evs' where 2: "events (mon (run py get_text es (iteration py get_text e st)))
      = events (mon (iteration py get_text e st)) @ evs'" "length (sleeps evs') = length es"
    "\<forall>d \<in> set (sleeps evs'). d = check_interval (mon st) \<or> d = check_interval (mon st) * 2"
    using Cons.IH [of "iteration py get_text e st"] by auto
  have "events (mon (run py get_text (e # es) st)) = events (mon st) @ (evs @ evs')"
    using 1 2 by simp
  moreover have "length (sleeps (evs @ evs')) = length (e # es)" using 1 2 by simp
  moreover have "\<forall>d \<in> set (sleeps (evs @ evs')). d = check_interval (mon st) \<or> d = check_interval (mon st) * 2"
    using 1 2 by auto
  ultimately show ?case by blast
qed

lemma run_events: "events (mon (run py get_text es st)) = events (mon st) @ new_events py get_text es st"
  using run_sleeps [of py get_text es st] by (auto simp: new_events_def)

lemma new_events_append:
  "new_events py get_text (es @ es') st =
     new_events py get_text es st @ new_events py get_text es' (run py get_text es st)"
proof -
  have "events (mon (run py get_text (es @ es') st)) =
      events (mon st) @ new_events py get_text es st @ new_events py get_text es' (run py get_text es st)"
    by (simp add: run_append run_events)
  then show ?thesis by (simp add: new_events_def [of py get_text "es @ es'"])
qed

lemma failed_streak_append:
  "failed_streak py get_text (es @ es') st \<longleftrightarrow>
     failed_streak py get_text es st \<and> failed_streak py get_text es' (run py get_text es st)"
  by (induction es arbitrary: st) auto

lemma failed_streak_single:
  assumes "failed_streak py get_text [e] st"
  obtains content m where "fetch_page_content e (mon st) = Inr (content, m)"
    and "consecutive_errors (loop_body py get_text e content (st\<lparr>mon := m\<rparr>)) = consecutive_errors st + 1"
  using assms by (auto split: sum.splits)

lemma failed_iteration_below:
  assumes "failed_streak py get_text [e] st" "consecutive_errors st < 5"
  shows "consecutive_errors (iteration py get_text e st) = consecutive_errors st + 1
    \<and> sleeps (new_events py get_text [e] st) = [check_interval (mon st)]"
proof -
  from assms(1) obtain content m where f: "fetch_page_content e (mon st) = Inr (content, m)"
    and inc: "consecutive_errors (loop_body py get_text e content (st\<lparr>mon := m\<rparr>)) = consecutive_errors st + 1"
    by (rule failed_streak_single)
  from iteration_at_sleep_step [OF f, of py get_text] inc assms(2) show ?thesis by simp
qed

lemma failed_iteration_at_five:
  assumes "failed_streak py get_text [e] st" "consecutive_errors st = 5"
  shows "consecutive_errors (iteration py get_text e st) = 0
    \<and> sleeps (new_events py get_text [e] st) = [check_interval (mon st) * 2]"
proof -
  from assms(1) obtain content m where f: "fetch_page_content e (mon st) = Inr (content, m)"
    and inc: "consecutive_errors (loop_body py get_text e content (st\<lparr>mon := m\<rparr>)) = consecutive_errors st + 1"
    by (rule failed_streak_single)
  from iteration_at_sleep_step [OF f, of py get_text] inc assms(2) show ?thesis by simp
qed

lemma failed_streak_below:
  "failed_streak py get_text es st \<Longrightarrow> consecutive_errors st + int (length es) \<le> 5 \<Longrightarrow>
     consecutive_errors (run py get_text es st) = consecutive_errors st + int (length es)
     \<and> sleeps (new_events py get_text es st) = replicate (length es) (check_interval (mon st))"
proof (induction es arbitrary: st)
  case Nil
  then show ?case by (simp add: new_events_def)
next
  case (Cons e es)
  from Cons.prems have one: "failed_streak py get_text [e] st" and lt: "consecutive_errors st < 5"
    and rest: "failed_streak py get_text es (iteration py get_text e st)"
    by auto
  note step = failed_iteration_below [OF one lt]
  have "consecutive_errors (iteration py get_text e st) + int (length es) \<le> 5"
    using step Cons.prems(2) by simp
  note IH = Cons.IH [OF rest this]
  have "new_events py get_text (e # es) st =
      new_events py get_text [e] st @ new_events py get_text es (iteration py get_text e st)"
    using new_events_append [of py get_text "[e]" es st] by simp
  with step IH show ?case by simp
qed

lemma six_failed_iterations:
  assumes "consecutive_errors st = 0" "length es = 6" "failed_streak py get_text es st"
  shows "sleeps (new_events py get_text es st) =
      replicate 5 (check_interval (mon st)) @ [check_interval (mon st) * 2]
    \<and> consecutive_errors (run py get_text es st) = 0"
proof -
  from assms(2) obtain es5 e where es: "es = es5 @ [e]" and len: "length es5 = 5"
    by (cases es rule: rev_cases) auto
  from assms(3) have s5: "failed_streak py get_text es5 st"
    and s6: "failed_streak py get_text [e] (run py get_text es5 st)"
    unfolding es failed_streak_append by blast+
  have five: "consecutive_errors (run py get_text es5 st) = 5"
    "sleeps (new_events py get_text es5 st) = replicate 5 (check_interval (mon st))"
    using failed_streak_below [OF s5] assms(1) len by simp_all
  note last = failed_iteration_at_five [OF s6 five(1)]
  show ?thesis
    using five last by (simp add: es new_events_append run_append)
qed

lemma iteration_errors_le:
  assumes "0 \<le> consecutive_errors st"
  shows "0 \<le> consecutive_errors (iteration py get_text e st)
     \<and> consecutive_errors (iteration py get_text e st) \<le> consecutive_errors st + 1"
proof (cases rule: fetch_cases [where e = e and m = "mon st"])
  case (raised x)
  with assms show ?thesis by (simp add: iteration_Inl)
next
  case (returned content m)
  have "0 \<le> consecutive_errors (st\<lparr>mon := m\<rparr>)" using assms by simp
  from loop_body_errors_le [OF this, of py get_text e content] show ?thesis
    by (simp add: iteration_Inr [OF returned] sleep_step_errors)
qed

lemma run_errors_nonneg:
  "0 \<le> consecutive_errors st \<Longrightarrow> 0 \<le> consecutive_errors (run py get_text es st)"
  by (induction es arbitrary: st) (simp_all add: iteration_errors_le)

lemma iteration_errors_bounded:
  assumes "0 \<le> consecutive_errors st" "consecutive_errors st \<le> 5" "fetched e \<noteq> Fetch_raised"
  shows "0 \<le> consecutive_errors (iteration py get_text e st)
     \<and> consecutive_errors (iteration py get_text e st) \<le> 5"
proof -
  from assms(3) obtain content m where f: "fetch_page_content e (mon st) = Inr (content, m)"
    using fetch_page_content_not_raised by blast
  have "0 \<le> consecutive_errors (st\<lparr>mon := m\<rparr>)" using assms(1) by simp
  from loop_body_errors_le [OF this, of py get_text e content] assms(2) show ?thesis
    by (simp add: iteration_Inr [OF f] sleep_step_errors)
qed

lemma run_errors_bounded:
  "0 \<le> consecutive_errors st \<Longrightarrow> consecutive_errors st \<le> 5 \<Longrightarrow>
   \<forall>e \<in> set es. fetched e \<noteq> Fetch_raised \<Longrightarrow>
     0 \<le> consecutive_errors (run py get_text es st) \<and> consecutive_errors (run py get_text es st) \<le> 5"
proof (induction es arbitrary: st)
  case Nil
  then show ?case by simp
next
  case (Cons e es)
  from Cons.prems have "fetched e \<noteq> Fetch_raised" by simp
  from iteration_errors_bounded [OF Cons.prems(1,2) this, of py get_text]
  show ?case using Cons.IH [of "iteration py get_text e st"] Cons.prems(3) by simp
qed

section \<open>The claims\<close>

text \<open>
  C1. A line passes the test of line 199 if and only if every search term, lowercased,
  occurs in the lowercased line as a substring (a plain containment, with nothing said
  about token boundaries). A line is returned by the loop only if it is one of the lines
  and passes that test for all the terms, so a line that contains only some of the terms is
  never returned; and a line that passes the test and whose fingerprint was not seen
  before has its fingerprint among those of the returned lines.
\<close>

theorem keyword_selection_is_conjunction_of_substrings:
  assumes "ts \<noteq> []"
  shows "(all_words_in py ts (str_lower py line) \<longleftrightarrow>
           (\<forall>word \<in> set ts. \<exists>pre suf. str_lower py line = pre @ str_lower py word @ suf))
       \<and> (line \<in> set (new_matches_of py ts seen lines) \<longrightarrow>
            line \<in> set lines \<and>
            (\<forall>word \<in> set ts. \<exists>pre suf. str_lower py line = pre @ str_lower py word @ suf))
       \<and> (line \<in> set lines \<and> normalized py (str_lower py line) \<notin> seen \<and>
            (\<forall>word \<in> set ts. \<exists>pre suf. str_lower py line = pre @ str_lower py word @ suf) \<longrightarrow>
            (\<exists>l \<in> set (new_matches_of py ts seen lines).
               normalized py (str_lower py l) = normalized py (str_lower py line)))"
proof (intro conjI impI)
  show "all_words_in py ts (str_lower py line) \<longleftrightarrow>
      (\<forall>word \<in> set ts. \<exists>pre suf. str_lower py line = pre @ str_lower py word @ suf)"
    by (rule all_words_in_iff)
next
  assume "line \<in> set (new_matches_of py ts seen lines)"
  from new_matches_of_sound [OF this] show "line \<in> set lines" by simp
next
  assume "line \<in> set (new_matches_of py ts seen lines)"
  from new_matches_of_sound [OF this]
  show "\<forall>word \<in> set ts. \<exists>pre suf. str_lower py line = pre @ str_lower py word @ suf"
    by (simp add: all_words_in_iff)
next
  assume a: "line \<in> set lines \<and> normalized py (str_lower py line) \<notin> seen \<and>
    (\<forall>word \<in> set ts. \<exists>pre suf. str_lower py line = pre @ str_lower py word @ suf)"
  then have "normalized py (str_lower py line) \<in>
      {normalized py (str_lower py l) |l. l \<in> set lines \<and> all_words_in py ts (str_lower py l)} - seen"
    by (auto simp: all_words_in_iff)
  then have "normalized py (str_lower py line) \<in>
      {normalized py (str_lower py l) |l. l \<in> set (new_matches_of py ts seen lines)}"
    by (simp only: new_matches_of_fingerprints)
  then show "\<exists>l \<in> set (new_matches_of py ts seen lines).
      normalized py (str_lower py l) = normalized py (str_lower py line)"
    by auto
qed

theorem keyword_selection_witness:
  "[ustr ''alpha'', ustr ''beta''] \<noteq> []
   \<and> all_words_in latin1 [ustr ''alpha'', ustr ''beta''] (str_lower latin1 (ustr ''Beta, then ALPHAbet''))
   \<and> (\<exists>pre suf. str_lower latin1 (ustr ''Beta, then ALPHAbet'')
          = pre @ str_lower latin1 (ustr ''beta'') @ suf)
   \<and> \<not> all_words_in latin1 [ustr ''alpha'', ustr ''beta''] (str_lower latin1 (ustr ''only alpha here''))
   \<and> ustr ''only alpha here'' \<notin> set (new_matches_of latin1 [ustr ''alpha'', ustr ''beta''] {}
          [ustr ''only alpha here'', ustr ''Beta, then ALPHAbet''])
   \<and> ustr ''Beta, then ALPHAbet'' \<in> set (new_matches_of latin1 [ustr ''alpha'', ustr ''beta''] {}
          [ustr ''only alpha here'', ustr ''Beta, then ALPHAbet''])
   \<and> (\<exists>l \<in> set (new_matches_of latin1 [ustr ''alpha'', ustr ''beta''] {}
                   [ustr ''beta  Alpha'', ustr ''BETA alpha'']).
         normalized latin1 (str_lower latin1 l) = normalized latin1 (str_lower latin1 (ustr ''BETA alpha'')))
   \<and> new_matches_of latin1 [ustr ''alpha'', ustr ''beta''] {} [ustr ''beta  Alpha'', ustr ''BETA alpha'']
       = [ustr ''beta  Alpha'']
   \<and> new_matches_of latin1 [ustr ''caf'' @ [233]] {} [ustr ''CAF'' @ [201] @ ustr '' latte'']
       = [ustr ''CAF'' @ [201] @ ustr '' latte'']"
proof -
  let ?ts = "[ustr ''alpha'', ustr ''beta'']"
  have ne: "?ts \<noteq> []" by simp
  have sel: "all_words_in latin1 ?ts (str_lower latin1 (ustr ''Beta, then ALPHAbet''))"
    by code_simp
  have nsel: "\<not> all_words_in latin1 ?ts (str_lower latin1 (ustr ''only alpha here''))"
    by code_simp
  have sel2: "all_words_in latin1 ?ts (str_lower latin1 (ustr ''BETA alpha''))"
    by code_simp
  note inst = keyword_selection_is_conjunction_of_substrings [OF ne, where py = latin1]
  from inst [where line = "ustr ''Beta, then ALPHAbet''"] sel
  have "\<forall>word \<in> set ?ts.
      \<exists>pre suf. str_lower latin1 (ustr ''Beta, then ALPHAbet'') = pre @ str_lower latin1 word @ suf"
    by blast
  then have sub: "\<exists>pre suf. str_lower latin1 (ustr ''Beta, then ALPHAbet'')
      = pre @ str_lower latin1 (ustr ''beta'') @ suf"
    by simp
  from inst [where line = "ustr ''only alpha here''" and seen = "{}"
      and lines = "[ustr ''only alpha here'', ustr ''Beta, then ALPHAbet'']"] nsel
  have out: "ustr ''only alpha here'' \<notin> set (new_matches_of latin1 ?ts {}
      [ustr ''only alpha here'', ustr ''Beta, then ALPHAbet''])"
    by blast
  have res: "new_matches_of latin1 ?ts {} [ustr ''only alpha here'', ustr ''Beta, then ALPHAbet'']
      = [ustr ''Beta, then ALPHAbet'']"
    by code_simp
  then have isin: "ustr ''Beta, then ALPHAbet'' \<in> set (new_matches_of latin1 ?ts {}
      [ustr ''only alpha here'', ustr ''Beta, then ALPHAbet''])"
    by simp
  have mem: "ustr ''BETA alpha'' \<in> set [ustr ''beta  Alpha'', ustr ''BETA alpha'']" by simp
  have fresh: "normalized latin1 (str_lower latin1 (ustr ''BETA alpha'')) \<notin> {}" by simp
  from inst [where line = "ustr ''BETA alpha''" and seen = "{}"
      and lines = "[ustr ''beta  Alpha'', ustr ''BETA alpha'']"] sel2 mem fresh
  have rep: "\<exists>l \<in> set (new_matches_of latin1 ?ts {} [ustr ''beta  Alpha'', ustr ''BETA alpha'']).
      normalized latin1 (str_lower latin1 l) = normalized latin1 (str_lower latin1 (ustr ''BETA alpha''))"
    by blast
  have res2: "new_matches_of latin1 ?ts {} [ustr ''beta  Alpha'', ustr ''BETA alpha'']
      = [ustr ''beta  Alpha'']"
    by code_simp
  have res3: "new_matches_of latin1 [ustr ''caf'' @ [233]] {} [ustr ''CAF'' @ [201] @ ustr '' latte'']
       = [ustr ''CAF'' @ [201] @ ustr '' latte'']"
    by code_simp
  from ne sel sub nsel out isin rep res2 res3 show ?thesis by blast
qed

text \<open>
  C2. Running the keyword check a second time on the same content, on the monitor as the
  first run left it, returns no new match, whatever the writes did: every fingerprint of a
  line the first run returned is in the set of seen matches after it. The same holds of
  the loop over the lines of a page text on its own.
\<close>

theorem keyword_check_idempotent:
  "fst (snd (check_for_keywords py get_text ok2
        (snd (snd (check_for_keywords py get_text ok1 m html_content))) html_content)) = []
   \<and> (\<forall>l \<in> set (fst (snd (check_for_keywords py get_text ok1 m html_content))).
        normalized py (str_lower py l) \<in> seen_matches (snd (snd (check_for_keywords py get_text ok1 m html_content))))
   \<and> new_matches_of py ts (seen_after py ts seen lines) lines = []"
proof (intro conjI)
  show "new_matches_of py ts (seen_after py ts seen lines) lines = []"
    by (simp add: new_matches_of_again)
next
  show "fst (snd (check_for_keywords py get_text ok2
        (snd (snd (check_for_keywords py get_text ok1 m html_content))) html_content)) = []"
  proof (cases rule: check_cases [of html_content get_text])
    case no_text
    then show ?thesis by (simp add: check_for_keywords_no_text)
  next
    case (parsed html page)
    then show ?thesis
      by (simp add: check_for_keywords_text Let_def new_matches_of_again)
  qed
next
  show "\<forall>l \<in> set (fst (snd (check_for_keywords py get_text ok1 m html_content))).
        normalized py (str_lower py l) \<in> seen_matches (snd (snd (check_for_keywords py get_text ok1 m html_content)))"
  proof (cases rule: check_cases [of html_content get_text])
    case no_text
    then show ?thesis by (simp add: check_for_keywords_no_text)
  next
    case (parsed html page)
    have "normalized py (str_lower py l) \<in> seen_after py ts' seen' ls"
      if "l \<in> set (new_matches_of py ts' seen' ls)" for l ts' seen' ls
      using new_matches_of_sound [OF that] unfolding seen_after_eq by blast
    with parsed show ?thesis
      by (simp add: check_for_keywords_text Let_def)
  qed
qed

theorem keyword_check_idempotent_witness:
  "fst (snd (check_for_keywords latin1 Some True example_monitor (Some example_page)))
      = [ustr ''New Pickup: Alpha Widget'']
   \<and> normalized latin1 (str_lower latin1 (ustr ''New Pickup: Alpha Widget''))
       \<in> seen_matches (snd (snd (check_for_keywords latin1 Some True example_monitor (Some example_page))))
   \<and> fst (snd (check_for_keywords latin1 Some True
        (snd (snd (check_for_keywords latin1 Some True example_monitor (Some example_page))))
        (Some example_page))) = []"
proof -
  have r: "fst (snd (check_for_keywords latin1 Some True example_monitor (Some example_page)))
       = [ustr ''New Pickup: Alpha Widget'']"
    by code_simp
  from keyword_check_idempotent
    [where py = latin1 and get_text = Some and ?ok1.0 = True and ?ok2.0 = True and m = example_monitor
       and html_content = "Some example_page"] r
  show ?thesis by simp
qed

text \<open>
  C3. The fingerprint of a line is its lowercased form with the whitespace at its two ends
  dropped and every run of whitespace inside collapsed to a single space. When the
  lowercased line has no whitespace at its ends, as the lowercased form of a trimmed line
  of line 194 has, the fingerprint is the collapsed lowercased line itself. Hence two
  lines with the same lowercase collapsed form have the same fingerprint, and when the
  first passes the test for the terms, the second right after it adds nothing: it is
  treated as a duplicate.
\<close>

theorem fingerprint_is_lowercase_collapsed_line:
  "normalized py (str_lower py a) = collapse_ws py (py_strip py (str_lower py a))
   \<and> (py_strip py (str_lower py a) = str_lower py a \<longrightarrow>
        normalized py (str_lower py a) = collapse_ws py (str_lower py a))
   \<and> (collapse_ws py (py_strip py (str_lower py a)) = collapse_ws py (py_strip py (str_lower py b)) \<longrightarrow>
        normalized py (str_lower py a) = normalized py (str_lower py b)
        \<and> (all_words_in py ts (str_lower py a) \<longrightarrow>
             scan_lines py ts (acc, seen) (a # b # rest) = scan_lines py ts (acc, seen) (a # rest)))"
proof (intro conjI impI)
  show "normalized py (str_lower py a) = collapse_ws py (py_strip py (str_lower py a))"
    by (rule normalized_collapse)
next
  assume "py_strip py (str_lower py a) = str_lower py a"
  then show "normalized py (str_lower py a) = collapse_ws py (str_lower py a)"
    by (rule normalized_trimmed)
next
  assume "collapse_ws py (py_strip py (str_lower py a)) = collapse_ws py (py_strip py (str_lower py b))"
  then show eq: "normalized py (str_lower py a) = normalized py (str_lower py b)"
    by (simp only: normalized_collapse)
  assume "all_words_in py ts (str_lower py a)"
  then show "scan_lines py ts (acc, seen) (a # b # rest) = scan_lines py ts (acc, seen) (a # rest)"
    using eq by (rule scan_lines_seen_duplicate)
qed

theorem fingerprint_witness:
  "py_strip latin1 (str_lower latin1 (ustr ''Foo   Bar'')) = str_lower latin1 (ustr ''Foo   Bar'')
   \<and> normalized latin1 (str_lower latin1 (ustr ''Foo   Bar'')) = ustr ''foo bar''
   \<and> normalized latin1 (str_lower latin1 (ustr ''foo bar'')) = ustr ''foo bar''
   \<and> all_words_in latin1 [ustr ''foo''] (str_lower latin1 (ustr ''Foo   Bar''))
   \<and> scan_lines latin1 [ustr ''foo''] ([], {}) [ustr ''Foo   Bar'', ustr ''foo bar'']
       = ([ustr ''Foo   Bar''], {ustr ''foo bar''})
   \<and> normalized latin1 (str_lower latin1 (ustr ''foo'' @ [160] @ ustr ''BAR'')) = ustr ''foo bar''
   \<and> scan_lines latin1 [ustr ''foo''] ([], {}) [ustr ''foo'' @ [160] @ ustr ''BAR'', ustr ''foo bar'']
       = ([ustr ''foo'' @ [160] @ ustr ''BAR''], {ustr ''foo bar''})"
proof -
  let ?a = "ustr ''Foo   Bar''" and ?b = "ustr ''foo bar''"
  let ?n = "ustr ''foo'' @ [160] @ ustr ''BAR''"
  have t: "py_strip latin1 (str_lower latin1 ?a) = str_lower latin1 ?a" by code_simp
  have t': "py_strip latin1 (str_lower latin1 ?n) = str_lower latin1 ?n" by code_simp
  have c: "collapse_ws latin1 (py_strip latin1 (str_lower latin1 ?a))
      = collapse_ws latin1 (py_strip latin1 (str_lower latin1 ?b))"
    by code_simp
  have c': "collapse_ws latin1 (py_strip latin1 (str_lower latin1 ?n))
      = collapse_ws latin1 (py_strip latin1 (str_lower latin1 ?b))"
    by code_simp
  have d: "all_words_in latin1 [ustr ''foo''] (str_lower latin1 ?a)" by code_simp
  have d': "all_words_in latin1 [ustr ''foo''] (str_lower latin1 ?n)" by code_simp
  have e: "collapse_ws latin1 (str_lower latin1 ?a) = ustr ''foo bar''" by code_simp
  have e': "collapse_ws latin1 (str_lower latin1 ?n) = ustr ''foo bar''" by code_simp
  have f: "scan_lines latin1 [ustr ''foo''] ([], {}) [?a] = ([?a], {ustr ''foo bar''})"
    by code_simp
  have f': "scan_lines latin1 [ustr ''foo''] ([], {}) [?n] = ([?n], {ustr ''foo bar''})"
    by code_simp
  note inst = fingerprint_is_lowercase_collapsed_line
    [where py = latin1 and a = ?a and b = ?b and ts = "[ustr ''foo'']" and acc = "[]"
       and seen = "{}" and rest = "[]"]
  note inst' = fingerprint_is_lowercase_collapsed_line
    [where py = latin1 and a = ?n and b = ?b and ts = "[ustr ''foo'']" and acc = "[]"
       and seen = "{}" and rest = "[]"]
  from inst t have "normalized latin1 (str_lower latin1 ?a) = collapse_ws latin1 (str_lower latin1 ?a)"
    by blast
  then have g: "normalized latin1 (str_lower latin1 ?a) = ustr ''foo bar''"
    by (simp only: e)
  from inst c d have h: "normalized latin1 (str_lower latin1 ?a) = normalized latin1 (str_lower latin1 ?b)"
    and i: "scan_lines latin1 [ustr ''foo''] ([], {}) [?a, ?b] = scan_lines latin1 [ustr ''foo''] ([], {}) [?a]"
    by blast+
  from g h have j: "normalized latin1 (str_lower latin1 ?b) = ustr ''foo bar''" by simp
  from i f have k: "scan_lines latin1 [ustr ''foo''] ([], {}) [?a, ?b] = ([?a], {ustr ''foo bar''})"
    by (simp only:)
  from inst' t' have "normalized latin1 (str_lower latin1 ?n) = collapse_ws latin1 (str_lower latin1 ?n)"
    by blast
  then have g': "normalized latin1 (str_lower latin1 ?n) = ustr ''foo bar''"
    by (simp only: e')
  from inst' c' d'
  have i': "scan_lines latin1 [ustr ''foo''] ([], {}) [?n, ?b] = scan_lines latin1 [ustr ''foo''] ([], {}) [?n]"
    by blast
  from i' f' have k': "scan_lines latin1 [ustr ''foo''] ([], {}) [?n, ?b] = ([?n], {ustr ''foo bar''})"
    by (simp only:)
  from t g j d k g' k' show ?thesis by blast
qed

text \<open>
  C7. The new matching lines that the keyword check returns are a subsequence of the
  lines of the page text, so they come in their order of appearance; and each of them is
  the text of a line of the page, trimmed as line 194 does, not lowercased and not its
  fingerprint.
\<close>

theorem new_matches_in_order_with_line_text:
  assumes "get_text html = Some page"
  shows "subseq (fst (snd (check_for_keywords py get_text ok m (Some html)))) (extract_lines py page)
     \<and> (\<forall>l \<in> set (fst (snd (check_for_keywords py get_text ok m (Some html)))).
          \<exists>raw \<in> set (split_newline page). l = py_strip py raw)
     \<and> subseq (new_matches_of py ts seen lines) lines"
proof (cases "html = []")
  case True
  then show ?thesis by (simp add: check_for_keywords_def new_matches_of_subseq)
next
  case False
  let ?new = "new_matches_of py (search_strings m) (seen_matches m) (extract_lines py page)"
  have res: "fst (snd (check_for_keywords py get_text ok m (Some html))) = ?new"
    using False assms by (simp add: check_for_keywords_text Let_def)
  have sub: "subseq ?new (extract_lines py page)" by (rule new_matches_of_subseq)
  have "\<exists>raw \<in> set (split_newline page). l = py_strip py raw" if "l \<in> set ?new" for l
    using new_matches_of_sound [OF that] extract_lines_raw by blast
  with sub show ?thesis by (simp add: res new_matches_of_subseq)
qed

theorem new_matches_in_order_witness:
  "Some example_page = Some example_page
   \<and> fst (snd (check_for_keywords latin1 Some True example_monitor (Some example_page)))
       = [ustr ''New Pickup: Alpha Widget'']
   \<and> subseq [ustr ''New Pickup: Alpha Widget''] (extract_lines latin1 example_page)
   \<and> (\<exists>raw \<in> set (split_newline example_page). ustr ''New Pickup: Alpha Widget'' = py_strip latin1 raw)
   \<and> normalized latin1 (str_lower latin1 (ustr ''New Pickup: Alpha Widget''))
       \<noteq> ustr ''New Pickup: Alpha Widget''
   \<and> fst (snd (check_for_keywords latin1 Some True example_monitor
        (Some ([160] @ ustr ''Alpha Pickup'' @ [160, 10] @ ustr ''pickup: alpha''))))
       = [ustr ''Alpha Pickup'', ustr ''pickup: alpha'']"
proof -
  have r: "fst (snd (check_for_keywords latin1 Some True example_monitor (Some example_page)))
       = [ustr ''New Pickup: Alpha Widget'']"
    by code_simp
  have n: "normalized latin1 (str_lower latin1 (ustr ''New Pickup: Alpha Widget''))
       \<noteq> ustr ''New Pickup: Alpha Widget''"
    by code_simp
  have r2: "fst (snd (check_for_keywords latin1 Some True example_monitor
        (Some ([160] @ ustr ''Alpha Pickup'' @ [160, 10] @ ustr ''pickup: alpha''))))
       = [ustr ''Alpha Pickup'', ustr ''pickup: alpha'']"
    by code_simp
  note inst = new_matches_in_order_with_line_text
      [where py = latin1 and get_text = Some and html = example_page and page = example_page
         and ok = True and m = example_monitor, OF refl]
  from inst have "subseq (fst (snd (check_for_keywords latin1 Some True example_monitor (Some example_page))))
      (extract_lines latin1 example_page)"
    by blast
  then have a: "subseq [ustr ''New Pickup: Alpha Widget''] (extract_lines latin1 example_page)"
    by (simp only: r)
  from inst have "\<forall>l \<in> set (fst (snd (check_for_keywords latin1 Some True example_monitor (Some example_page)))).
      \<exists>raw \<in> set (split_newline example_page). l = py_strip latin1 raw"
    by blast
  then have b: "\<exists>raw \<in> set (split_newline example_page). ustr ''New Pickup: Alpha Widget'' = py_strip latin1 raw"
    by (simp only: r) simp
  from r a b n r2 show ?thesis by blast
qed

text \<open>
  C9. Within one call, when two lines that pass the test for the terms have the same
  fingerprint, the later one is suppressed: the call returns the same lines and leaves the
  same set as if the later line were not there. No two returned lines share a
  fingerprint, and the earlier line is returned when its fingerprint was neither seen
  before the call nor added by a line before it.
\<close>

theorem first_occurrence_only:
  assumes "all_words_in py ts (str_lower py l1)" and "all_words_in py ts (str_lower py l2)"
    and "normalized py (str_lower py l1) = normalized py (str_lower py l2)"
  shows "scan_lines py ts ([], seen) (pre @ l1 # mid @ l2 # post)
           = scan_lines py ts ([], seen) (pre @ l1 # mid @ post)
     \<and> distinct (map (\<lambda>l. normalized py (str_lower py l))
          (new_matches_of py ts seen (pre @ l1 # mid @ l2 # post)))
     \<and> (normalized py (str_lower py l1) \<notin> seen_after py ts seen pre \<longrightarrow>
          new_matches_of py ts seen (pre @ l1 # mid @ l2 # post)
            = new_matches_of py ts seen pre @ l1 #
                new_matches_of py ts (insert (normalized py (str_lower py l1)) (seen_after py ts seen pre)) (mid @ post))"
proof -
  let ?s = "seen_after py ts seen (pre @ l1 # mid)"
  have "normalized py (str_lower py l1) \<in> ?s"
    unfolding seen_after_eq using assms(1) by auto
  then have in_s: "normalized py (str_lower py l2) \<in> ?s" by (simp add: assms(3))
  have n: "new_matches_of py ts ?s (l2 # post) = new_matches_of py ts ?s post"
    using in_s by (simp add: new_matches_of_Cons)
  have s: "seen_after py ts ?s (l2 # post) = seen_after py ts ?s post"
    using in_s by (simp add: seen_after_Cons)
  have split1: "pre @ l1 # mid @ l2 # post = (pre @ l1 # mid) @ l2 # post" by simp
  have split2: "pre @ l1 # mid @ post = (pre @ l1 # mid) @ post" by simp
  have "new_matches_of py ts seen ((pre @ l1 # mid) @ l2 # post)
      = new_matches_of py ts seen (pre @ l1 # mid) @ new_matches_of py ts ?s (l2 # post)"
    by (rule new_matches_of_append)
  also have "\<dots> = new_matches_of py ts seen (pre @ l1 # mid) @ new_matches_of py ts ?s post"
    by (simp only: n)
  also have "\<dots> = new_matches_of py ts seen ((pre @ l1 # mid) @ post)"
    by (rule new_matches_of_append [symmetric])
  finally have eqn: "new_matches_of py ts seen (pre @ l1 # mid @ l2 # post)
      = new_matches_of py ts seen (pre @ l1 # mid @ post)"
    by (simp only: split1 [symmetric] split2 [symmetric])
  have "seen_after py ts seen ((pre @ l1 # mid) @ l2 # post) = seen_after py ts ?s (l2 # post)"
    by (rule seen_after_append)
  also have "\<dots> = seen_after py ts ?s post" by (rule s)
  also have "\<dots> = seen_after py ts seen ((pre @ l1 # mid) @ post)"
    by (rule seen_after_append [symmetric])
  finally have eqs: "seen_after py ts seen (pre @ l1 # mid @ l2 # post)
      = seen_after py ts seen (pre @ l1 # mid @ post)"
    by (simp only: split1 [symmetric] split2 [symmetric])
  have one: "scan_lines py ts ([], seen) (pre @ l1 # mid @ l2 # post)
           = scan_lines py ts ([], seen) (pre @ l1 # mid @ post)"
    by (simp only: scan_lines_eq eqn eqs)
  have two: "distinct (map (\<lambda>l. normalized py (str_lower py l))
          (new_matches_of py ts seen (pre @ l1 # mid @ l2 # post)))"
    by (rule new_matches_of_distinct)
  have three: "new_matches_of py ts seen (pre @ l1 # mid @ l2 # post)
            = new_matches_of py ts seen pre @ l1 #
                new_matches_of py ts (insert (normalized py (str_lower py l1)) (seen_after py ts seen pre)) (mid @ post)"
    if "normalized py (str_lower py l1) \<notin> seen_after py ts seen pre"
    unfolding eqn using that assms(1)
    by (simp add: new_matches_of_append new_matches_of_Cons)
  from one two three show ?thesis by blast
qed

theorem first_occurrence_witness:
  "all_words_in latin1 [ustr ''foo''] (str_lower latin1 (ustr ''Foo'' @ [160] @ ustr ''Bar''))
   \<and> all_words_in latin1 [ustr ''foo''] (str_lower latin1 (ustr ''foo bar''))
   \<and> normalized latin1 (str_lower latin1 (ustr ''Foo'' @ [160] @ ustr ''Bar''))
       = normalized latin1 (str_lower latin1 (ustr ''foo bar''))
   \<and> normalized latin1 (str_lower latin1 (ustr ''Foo'' @ [160] @ ustr ''Bar''))
       \<notin> seen_after latin1 [ustr ''foo''] {} [ustr ''a line'']
   \<and> new_matches_of latin1 [ustr ''foo''] {}
        ([ustr ''a line''] @ (ustr ''Foo'' @ [160] @ ustr ''Bar'') # [ustr ''food''] @ ustr ''foo bar'' # [ustr ''last''])
       = [ustr ''Foo'' @ [160] @ ustr ''Bar'', ustr ''food'']"
proof -
  let ?l1 = "ustr ''Foo'' @ [160] @ ustr ''Bar''"
  have a: "all_words_in latin1 [ustr ''foo''] (str_lower latin1 ?l1)" by code_simp
  have b: "all_words_in latin1 [ustr ''foo''] (str_lower latin1 (ustr ''foo bar''))" by code_simp
  have c: "normalized latin1 (str_lower latin1 ?l1) = normalized latin1 (str_lower latin1 (ustr ''foo bar''))"
    by code_simp
  have d: "normalized latin1 (str_lower latin1 ?l1) \<notin> seen_after latin1 [ustr ''foo''] {} [ustr ''a line'']"
    by code_simp
  have e: "new_matches_of latin1 [ustr ''foo''] {} [ustr ''a line''] @ ?l1 #
      new_matches_of latin1 [ustr ''foo'']
        (insert (normalized latin1 (str_lower latin1 ?l1)) (seen_after latin1 [ustr ''foo''] {} [ustr ''a line'']))
        ([ustr ''food''] @ [ustr ''last'']) = [?l1, ustr ''food'']"
    by code_simp
  from first_occurrence_only [OF a b c, where seen = "{}" and pre = "[ustr ''a line'']"
      and mid = "[ustr ''food'']" and post = "[ustr ''last'']"] d e
  have "new_matches_of latin1 [ustr ''foo''] {}
        ([ustr ''a line''] @ ?l1 # [ustr ''food''] @ ustr ''foo bar'' # [ustr ''last''])
       = [?l1, ustr ''food'']"
    by simp
  with a b c d show ?thesis by blast
qed

text \<open>
  C4. At the sleep step of lines 275 to 281, a counter above 5 gives one sleep of twice the
  configured interval (after a warning) and a counter reset to zero; a counter of 5 or less
  gives a sleep of the configured interval and leaves the counter as it is; an iteration
  whose fetch returned goes through that step and sleeps once, accordingly. Hence six
  failed iterations in a row from a counter of zero, each reaching the sleep step with the
  counter raised by one, sleep five times the interval and then once twice the interval,
  and end with the counter at zero: one doubled sleep per streak, and nothing longer.
\<close>

theorem backoff_is_one_doubled_sleep:
  "(5 < consecutive_errors st \<longrightarrow>
      events (mon (sleep_step st)) =
        events (mon st) @ [Log_warning, Sleep (check_interval (mon st) * 2)]
      \<and> consecutive_errors (sleep_step st) = 0)
   \<and> (consecutive_errors st \<le> 5 \<longrightarrow>
      events (mon (sleep_step st)) = events (mon st) @ [Sleep (check_interval (mon st))]
      \<and> consecutive_errors (sleep_step st) = consecutive_errors st)
   \<and> (fetch_page_content e (mon st) = Inr (content, m) \<longrightarrow>
      iteration py get_text e st = sleep_step (loop_body py get_text e content (st\<lparr>mon := m\<rparr>))
      \<and> sleeps (new_events py get_text [e] st) =
          [if 5 < consecutive_errors (loop_body py get_text e content (st\<lparr>mon := m\<rparr>))
           then check_interval (mon st) * 2 else check_interval (mon st)])
   \<and> (consecutive_errors st = 0 \<and> length es = 6 \<and> failed_streak py get_text es st \<longrightarrow>
      sleeps (new_events py get_text es st) =
        replicate 5 (check_interval (mon st)) @ [check_interval (mon st) * 2]
      \<and> consecutive_errors (run py get_text es st) = 0)"
  using six_failed_iterations [of st es py get_text]
    iteration_at_sleep_step [of e st content m py get_text]
    iteration_Inr [of e st content m py get_text]
  by (simp add: sleep_step_events sleep_step_errors)

theorem backoff_witness:
  "failed_streak latin1 Some (replicate 6 no_page) \<lparr>mon = example_monitor, consecutive_errors = 0\<rparr>
   \<and> sleeps (new_events latin1 Some (replicate 6 no_page) \<lparr>mon = example_monitor, consecutive_errors = 0\<rparr>)
       = [300, 300, 300, 300, 300, 600]
   \<and> consecutive_errors (run latin1 Some (replicate 6 no_page) \<lparr>mon = example_monitor, consecutive_errors = 0\<rparr>) = 0
   \<and> consecutive_errors (sleep_step \<lparr>mon = example_monitor, consecutive_errors = 5\<rparr>) = 5
   \<and> events (mon (sleep_step \<lparr>mon = example_monitor, consecutive_errors = 5\<rparr>)) = [Sleep 300]
   \<and> events (mon (sleep_step \<lparr>mon = example_monitor, consecutive_errors = 6\<rparr>)) = [Log_warning, Sleep 600]
   \<and> fetch_page_content no_page example_monitor
       = Inr (None, example_monitor\<lparr>events := events example_monitor @ [Log_error]\<rparr>)
   \<and> sleeps (new_events latin1 Some [no_page] \<lparr>mon = example_monitor, consecutive_errors = 5\<rparr>) = [600]
   \<and> sleeps (new_events latin1 Some [no_page] \<lparr>mon = example_monitor, consecutive_errors = 4\<rparr>) = [300]"
proof -
  let ?st = "\<lparr>mon = example_monitor, consecutive_errors = 0\<rparr>"
  let ?m = "example_monitor\<lparr>events := events example_monitor @ [Log_error]\<rparr>"
  have s: "failed_streak latin1 Some (replicate 6 no_page) ?st" by code_simp
  have i: "check_interval (mon ?st) = 300" by (simp add: example_monitor_def)
  have f: "fetch_page_content no_page example_monitor = Inr (None, ?m)"
    by (simp add: fetch_page_content.simps no_page_def)
  have b5: "consecutive_errors (loop_body latin1 Some no_page None
      (\<lparr>mon = example_monitor, consecutive_errors = 5\<rparr>\<lparr>mon := ?m\<rparr>)) = 6"
    by (simp add: loop_body_no_content)
  have b4: "consecutive_errors (loop_body latin1 Some no_page None
      (\<lparr>mon = example_monitor, consecutive_errors = 4\<rparr>\<lparr>mon := ?m\<rparr>)) = 5"
    by (simp add: loop_body_no_content)
  note a = backoff_is_one_doubled_sleep
    [where st = ?st and es = "replicate 6 no_page" and py = latin1 and get_text = Some]
  note b = backoff_is_one_doubled_sleep
    [where st = "\<lparr>mon = example_monitor, consecutive_errors = 5\<rparr>" and e = no_page
       and content = None and m = ?m and py = latin1 and get_text = Some and es = "[]"]
  note c = backoff_is_one_doubled_sleep
    [where st = "\<lparr>mon = example_monitor, consecutive_errors = 6\<rparr>" and es = "[]"]
  note d = backoff_is_one_doubled_sleep
    [where st = "\<lparr>mon = example_monitor, consecutive_errors = 4\<rparr>" and e = no_page
       and content = None and m = ?m and py = latin1 and get_text = Some and es = "[]"]
  from a s i have "sleeps (new_events latin1 Some (replicate 6 no_page) ?st) = [300, 300, 300, 300, 300, 600]"
    "consecutive_errors (run latin1 Some (replicate 6 no_page) ?st) = 0"
    by (simp_all add: numeral_eq_Suc)
  moreover from b have "consecutive_errors (sleep_step \<lparr>mon = example_monitor, consecutive_errors = 5\<rparr>) = 5"
    "events (mon (sleep_step \<lparr>mon = example_monitor, consecutive_errors = 5\<rparr>)) = [Sleep 300]"
    by (simp_all add: example_monitor_def)
  moreover from c have "events (mon (sleep_step \<lparr>mon = example_monitor, consecutive_errors = 6\<rparr>)) = [Log_warning, Sleep 600]"
    by (simp add: example_monitor_def)
  moreover from b f b5 have "sleeps (new_events latin1 Some [no_page] \<lparr>mon = example_monitor, consecutive_errors = 5\<rparr>) = [600]"
    by (simp add: example_monitor_def)
  moreover from d f b4 have "sleeps (new_events latin1 Some [no_page] \<lparr>mon = example_monitor, consecutive_errors = 4\<rparr>) = [300]"
    by (simp add: example_monitor_def)
  ultimately show ?thesis using s f by blast
qed

text \<open>
  C5, as amended. In an iteration whose fetch returned a non-empty page and whose keyword
  check parsed it, the counter reaches the sleep step at zero when the check found no
  new line or the mail about the new lines went through; when new lines were found and
  the mail failed, it is one more than before.
\<close>

theorem counter_after_fetch_and_check:
  assumes "fetch_page_content e (mon st) = Inr (Some html, m)" and "html \<noteq> []"
    and "get_text html = Some page"
  shows "m = mon st
     \<and> iteration py get_text e st = sleep_step (loop_body py get_text e (Some html) st)
     \<and> consecutive_errors (loop_body py get_text e (Some html) st) =
         (if fst (snd (check_for_keywords py get_text (write_ok e) (mon st) (Some html))) = [] \<or> send_ok e
          then 0 else consecutive_errors st + 1)"
proof -
  have m: "m = mon st" using fetch_page_content_Inr(6) [OF assms(1)] by simp
  have "iteration py get_text e st = sleep_step (loop_body py get_text e (Some html) st)"
    using iteration_Inr [OF assms(1), of py get_text] by (simp add: m)
  with m assms(2,3) show ?thesis
    by (simp add: loop_body_parsed check_for_keywords_text Let_def)
qed

theorem failed_mail_is_counted:
  "fetch_page_content mail_fails example_monitor = Inr (Some example_page, example_monitor)
   \<and> example_page \<noteq> []
   \<and> fst (snd (check_for_keywords latin1 Some (write_ok mail_fails) example_monitor (Some example_page)))
       = [ustr ''New Pickup: Alpha Widget'']
   \<and> consecutive_errors (loop_body latin1 Some mail_fails (Some example_page)
        \<lparr>mon = example_monitor, consecutive_errors = 0\<rparr>) = 1"
proof -
  have "fetch_page_content mail_fails example_monitor = Inr (Some example_page, example_monitor)"
    by (simp add: fetch_page_content.simps mail_fails_def)
  moreover have "example_page \<noteq> []" by code_simp
  moreover have "fst (snd (check_for_keywords latin1 Some (write_ok mail_fails) example_monitor
      (Some example_page))) = [ustr ''New Pickup: Alpha Widget'']"
    by code_simp
  moreover have "consecutive_errors (loop_body latin1 Some mail_fails (Some example_page)
        \<lparr>mon = example_monitor, consecutive_errors = 0\<rparr>) = 1"
    by code_simp
  ultimately show ?thesis by blast
qed

theorem counter_after_fetch_and_check_witness:
  "fetch_page_content page_found example_monitor = Inr (Some example_page, example_monitor)
   \<and> example_page \<noteq> []
   \<and> consecutive_errors (loop_body latin1 Some page_found (Some example_page)
        \<lparr>mon = example_monitor, consecutive_errors = 3\<rparr>) = 0
   \<and> consecutive_errors (loop_body latin1 Some mail_fails (Some example_page)
        \<lparr>mon = example_monitor, consecutive_errors = 3\<rparr>) = 4"
proof -
  let ?st = "\<lparr>mon = example_monitor, consecutive_errors = 3\<rparr>"
  have a: "fetch_page_content page_found (mon ?st) = Inr (Some example_page, example_monitor)"
    by (simp add: fetch_page_content.simps page_found_def)
  have a': "fetch_page_content mail_fails (mon ?st) = Inr (Some example_page, example_monitor)"
    by (simp add: fetch_page_content.simps mail_fails_def)
  have b: "example_page \<noteq> []" by code_simp
  have c: "Some example_page = Some example_page" by simp
  have r: "fst (snd (check_for_keywords latin1 Some True example_monitor (Some example_page)))
       = [ustr ''New Pickup: Alpha Widget'']"
    by code_simp
  have f: "send_ok page_found" "\<not> send_ok mail_fails" "write_ok page_found" "write_ok mail_fails"
    by (simp_all add: page_found_def mail_fails_def)
  from counter_after_fetch_and_check [where py = latin1 and get_text = Some, OF a b c] f
  have one: "consecutive_errors (loop_body latin1 Some page_found (Some example_page) ?st) = 0"
    by simp
  from counter_after_fetch_and_check [where py = latin1 and get_text = Some, OF a' b c] f r
  have two: "consecutive_errors (loop_body latin1 Some mail_fails (Some example_page) ?st) = 4"
    by simp
  from a b one two show ?thesis by simp
qed

text \<open>
  C6. An iteration that adds a fingerprint to the set of seen matches writes the set once,
  in full, and that write is the first thing it does: the attempt to mail the new lines
  comes after it, and no other write follows. When the write goes through, the file
  holds the full set. An iteration that adds no fingerprint writes nothing and leaves the
  file as it was.
\<close>

theorem persist_once_before_mail:
  "events (mon (iteration py get_text e st)) = events (mon st) @ new_events py get_text [e] st
   \<and> (seen_matches (mon (iteration py get_text e st)) \<noteq> seen_matches (mon st) \<longrightarrow>
        (\<exists>new rest. new \<noteq> []
           \<and> new_events py get_text [e] st = Write_seen (seen_matches (mon (iteration py get_text e st))) # rest
           \<and> writes rest = [] \<and> Send_mail new \<in> set rest)
        \<and> (write_ok e \<longrightarrow> seen_matches_file (mon (iteration py get_text e st))
               = Stored (seen_matches (mon (iteration py get_text e st)))))
   \<and> (seen_matches (mon (iteration py get_text e st)) = seen_matches (mon st) \<longrightarrow>
        writes (new_events py get_text [e] st) = []
        \<and> seen_matches_file (mon (iteration py get_text e st)) = seen_matches_file (mon st))"
proof -
  have ev: "events (mon (iteration py get_text e st)) = events (mon st) @ new_events py get_text [e] st"
    using run_events [of py get_text "[e]" st] by simp
  have rest: "(seen_matches (mon (iteration py get_text e st)) \<noteq> seen_matches (mon st) \<longrightarrow>
        (\<exists>new rest. new \<noteq> []
           \<and> new_events py get_text [e] st = Write_seen (seen_matches (mon (iteration py get_text e st))) # rest
           \<and> writes rest = [] \<and> Send_mail new \<in> set rest)
        \<and> (write_ok e \<longrightarrow> seen_matches_file (mon (iteration py get_text e st))
               = Stored (seen_matches (mon (iteration py get_text e st)))))
   \<and> (seen_matches (mon (iteration py get_text e st)) = seen_matches (mon st) \<longrightarrow>
        writes (new_events py get_text [e] st) = []
        \<and> seen_matches_file (mon (iteration py get_text e st)) = seen_matches_file (mon st))"
  proof (cases rule: fetch_cases [where e = e and m = "mon st"])
    case (raised x)
    then have "events (mon (iteration py get_text e st)) =
        events (mon st) @ [Log_error, Sleep (check_interval (mon st))]"
      by (simp add: iteration_Inl)
    from new_events_single [OF this] raised show ?thesis by (simp add: iteration_Inl)
  next
    case (returned content m)
    show ?thesis
    proof (cases "content = None")
      case True
      let ?st = "st\<lparr>mon := m\<rparr>"
      obtain evs0 where evs0: "events m = events (mon st) @ evs0" "writes evs0 = []"
        using fetch_page_content_Inr(5) [OF returned] by blast
      have b: "loop_body py get_text e content ?st =
          ?st\<lparr>consecutive_errors := consecutive_errors ?st + 1\<rparr>"
        using True by (simp add: loop_body_no_content)
      have it: "iteration py get_text e st =
          sleep_step (?st\<lparr>consecutive_errors := consecutive_errors ?st + 1\<rparr>)"
        using iteration_Inr [OF returned, of py get_text] by (simp only: b)
      let ?tail = "if consecutive_errors st + 1 > 5
          then [Log_warning, Sleep (check_interval m * 2)] else [Sleep (check_interval m)]"
      have "events (mon (iteration py get_text e st)) = events (mon st) @ (evs0 @ ?tail)"
        by (simp add: it sleep_step_events evs0)
      from new_events_single [OF this] evs0(2) show ?thesis
        by (simp add: it fetch_page_content_Inr(3,4) [OF returned])
    next
      case False
      then have m: "m = mon st" using fetch_page_content_Inr(6) [OF returned] by simp
      have it: "iteration py get_text e st = sleep_step (loop_body py get_text e content st)"
        using iteration_Inr [OF returned, of py get_text] by (simp add: m)
    let ?b = "loop_body py get_text e content st"
    let ?tail = "if consecutive_errors ?b > 5
        then [Log_warning, Sleep (check_interval (mon ?b) * 2)] else [Sleep (check_interval (mon ?b))]"
    have wt: "writes ?tail = []" by simp
    have evs: "new_events py get_text [e] st = evs @ ?tail"
      if "events (mon ?b) = events (mon st) @ evs" for evs
      by (rule new_events_single) (simp add: it sleep_step_events that)
    show ?thesis
    proof (cases rule: content_cases [where content = content and get_text = get_text])
      case no_content
      then have b: "?b = st\<lparr>consecutive_errors := consecutive_errors st + 1\<rparr>"
        by (rule loop_body_no_content)
      have "events (mon ?b) = events (mon st) @ []" by (simp add: b)
      from evs [OF this] show ?thesis by (simp add: it b)
    next
      case (parse_error html)
      then have b: "?b = \<lparr>mon = (mon st)\<lparr>events := events (mon st) @ [Log_error]\<rparr>, consecutive_errors = 0\<rparr>"
        by (simp add: loop_body_parse_error)
      have "events (mon ?b) = events (mon st) @ [Log_error]" by (simp add: b)
      from evs [OF this] show ?thesis by (simp add: it b)
    next
      case (parsed html page)
      let ?new = "new_matches_of py (search_strings (mon st)) (seen_matches (mon st)) (extract_lines py page)"
      let ?seen = "seen_after py (search_strings (mon st)) (seen_matches (mon st)) (extract_lines py page)"
      have b: "?b =
          (if ?new = [] then \<lparr>mon = (mon st)\<lparr>seen_matches := ?seen\<rparr>, consecutive_errors = 0\<rparr>
           else \<lparr>mon = snd (send_email_notification (send_ok e)
                         (save_seen_matches (write_ok e) ((mon st)\<lparr>seen_matches := ?seen\<rparr>)) ?new),
                 consecutive_errors = (if send_ok e then 0 else consecutive_errors st + 1)\<rparr>)"
        using loop_body_parsed [where py = py and get_text = get_text and html = html and page = page
            and e = e and st = st] parsed
        by (simp add: Let_def)
      show ?thesis
      proof (cases "?new = []")
        case True
        then have same: "?seen = seen_matches (mon st)" by (simp add: new_matches_of_Nil_iff)
        have "events (mon ?b) = events (mon st) @ []" using True by (simp add: b)
        from evs [OF this] show ?thesis using True same by (simp add: it b)
      next
        case False
        then have diff: "?seen \<noteq> seen_matches (mon st)" by (simp add: new_matches_of_Nil_iff)
        let ?evs = "Write_seen ?seen # (if write_ok e then [] else [Log_error])
            @ Send_mail ?new # (if send_ok e then [] else [Log_error])"
        have "events (mon ?b) = events (mon st) @ ?evs" using False by (simp add: b)
        from evs [OF this] have ne: "new_events py get_text [e] st = ?evs @ ?tail" .
        have s: "seen_matches (mon (iteration py get_text e st)) = ?seen"
          using False by (simp add: it b)
        have f: "write_ok e \<longrightarrow> seen_matches_file (mon (iteration py get_text e st)) = Stored ?seen"
          using False by (simp add: it b)
        let ?rest = "(if write_ok e then [] else [Log_error])
            @ Send_mail ?new # (if send_ok e then [] else [Log_error]) @ ?tail"
        have "new_events py get_text [e] st = Write_seen ?seen # ?rest" using ne by simp
        moreover have "writes ?rest = []" by simp
        moreover have "Send_mail ?new \<in> set ?rest" by simp
        ultimately have "\<exists>new rest. new \<noteq> []
           \<and> new_events py get_text [e] st = Write_seen ?seen # rest
           \<and> writes rest = [] \<and> Send_mail new \<in> set rest"
          using False by blast
        with s f diff show ?thesis by simp
      qed
    qed
    qed
  qed
  from ev rest show ?thesis by blast
qed

theorem persist_once_witness:
  "seen_matches (mon (iteration latin1 Some page_found \<lparr>mon = example_monitor, consecutive_errors = 0\<rparr>))
      \<noteq> seen_matches (mon \<lparr>mon = example_monitor, consecutive_errors = 0\<rparr>)
   \<and> write_ok page_found
   \<and> seen_matches_file (mon (iteration latin1 Some page_found \<lparr>mon = example_monitor, consecutive_errors = 0\<rparr>))
       = Stored {ustr ''new pickup: alpha widget''}
   \<and> new_events latin1 Some [page_found] \<lparr>mon = example_monitor, consecutive_errors = 0\<rparr>
       = [Write_seen {ustr ''new pickup: alpha widget''}, Send_mail [ustr ''New Pickup: Alpha Widget''], Sleep 300]
   \<and> seen_matches (mon (iteration latin1 Some no_page \<lparr>mon = example_monitor, consecutive_errors = 0\<rparr>))
       = seen_matches (mon \<lparr>mon = example_monitor, consecutive_errors = 0\<rparr>)
   \<and> writes (new_events latin1 Some [no_page] \<lparr>mon = example_monitor, consecutive_errors = 0\<rparr>) = []"
proof -
  let ?st = "\<lparr>mon = example_monitor, consecutive_errors = 0\<rparr>"
  have s: "seen_matches (mon (iteration latin1 Some page_found ?st)) = {ustr ''new pickup: alpha widget''}"
    by code_simp
  have s0: "seen_matches (mon ?st) = {}" by (simp add: example_monitor_def)
  have w: "write_ok page_found" by (simp add: page_found_def)
  have n: "seen_matches (mon (iteration latin1 Some no_page ?st)) = seen_matches (mon ?st)"
    by code_simp
  have ev: "new_events latin1 Some [page_found] ?st
       = [Write_seen {ustr ''new pickup: alpha widget''}, Send_mail [ustr ''New Pickup: Alpha Widget''], Sleep 300]"
    by code_simp
  have d: "seen_matches (mon (iteration latin1 Some page_found ?st)) \<noteq> seen_matches (mon ?st)"
    unfolding s s0 by simp
  from persist_once_before_mail [of latin1 Some page_found ?st] d w
  have f: "seen_matches_file (mon (iteration latin1 Some page_found ?st)) = Stored {ustr ''new pickup: alpha widget''}"
    by (simp only: s) blast
  from persist_once_before_mail [of latin1 Some no_page ?st] n
  have g: "writes (new_events latin1 Some [no_page] ?st) = []" by blast
  from d w f ev n g show ?thesis by blast
qed

text \<open>
  C8. \<open>load_seen_matches\<close> never raises. When the directory is there and the file
  is not, the set is empty and one write of the empty set is attempted, which leaves an
  empty record when it goes through and an error in the log when it does not. When the
  directory cannot be made, or the file cannot be read or parsed, the set is empty, an
  error is logged and the file is left alone. A readable record gives its set.
\<close>

theorem load_seen_matches_never_raises:
  "(\<exists>m'. load_seen_matches makedirs_ok ok m = Inr m')
   \<and> (makedirs_ok \<and> seen_matches_file m = Absent \<longrightarrow>
        (\<exists>m'. load_seen_matches makedirs_ok ok m = Inr m'
           \<and> seen_matches m' = {}
           \<and> events m' = events m @ Write_seen {} # (if ok then [] else [Log_error])
           \<and> seen_matches_file m' = (if ok then Stored {} else Absent)))
   \<and> (\<not> makedirs_ok \<or> seen_matches_file m = Unreadable \<or> seen_matches_file m = Malformed \<longrightarrow>
        (\<exists>m'. load_seen_matches makedirs_ok ok m = Inr m'
           \<and> seen_matches m' = {}
           \<and> events m' = events m @ [Log_error]
           \<and> seen_matches_file m' = seen_matches_file m))
   \<and> (makedirs_ok \<and> seen_matches_file m = Stored fingerprints \<longrightarrow>
        load_seen_matches makedirs_ok ok m = Inr (m\<lparr>seen_matches := fingerprints\<rparr>))"
proof (intro conjI impI)
  show "\<exists>m'. load_seen_matches makedirs_ok ok m = Inr m'"
    by (simp add: load_seen_matches_def split: sum.splits)
next
  assume "makedirs_ok \<and> seen_matches_file m = Absent"
  then have "load_seen_matches makedirs_ok ok m = Inr (save_seen_matches ok (m\<lparr>seen_matches := {}\<rparr>))"
    by (simp add: load_seen_matches_def load_seen_matches_try_def)
  then show "\<exists>m'. load_seen_matches makedirs_ok ok m = Inr m'
           \<and> seen_matches m' = {}
           \<and> events m' = events m @ Write_seen {} # (if ok then [] else [Log_error])
           \<and> seen_matches_file m' = (if ok then Stored {} else Absent)"
    using \<open>makedirs_ok \<and> seen_matches_file m = Absent\<close> by simp
next
  assume "\<not> makedirs_ok \<or> seen_matches_file m = Unreadable \<or> seen_matches_file m = Malformed"
  then have "load_seen_matches makedirs_ok ok m =
      Inr (m\<lparr>seen_matches := {}, events := events m @ [Log_error]\<rparr>)"
    by (auto simp: load_seen_matches_def load_seen_matches_try_def)
  then show "\<exists>m'. load_seen_matches makedirs_ok ok m = Inr m'
           \<and> seen_matches m' = {}
           \<and> events m' = events m @ [Log_error]
           \<and> seen_matches_file m' = seen_matches_file m"
    by simp
next
  assume "makedirs_ok \<and> seen_matches_file m = Stored fingerprints"
  then show "load_seen_matches makedirs_ok ok m = Inr (m\<lparr>seen_matches := fingerprints\<rparr>)"
    by (simp add: load_seen_matches_def load_seen_matches_try_def)
qed

theorem load_seen_matches_witness:
  "(\<exists>m'. load_seen_matches True True (example_monitor\<lparr>seen_matches_file := Malformed\<rparr>) = Inr m'
       \<and> seen_matches m' = {} \<and> events m' = [Log_error] \<and> seen_matches_file m' = Malformed)
   \<and> (\<exists>m'. load_seen_matches True True (example_monitor\<lparr>seen_matches_file := Absent\<rparr>) = Inr m'
       \<and> seen_matches m' = {} \<and> events m' = [Write_seen {}] \<and> seen_matches_file m' = Stored {})
   \<and> load_seen_matches True True (example_monitor\<lparr>seen_matches_file := Stored {ustr ''seen before''}\<rparr>)
       = Inr (example_monitor\<lparr>seen_matches_file := Stored {ustr ''seen before''},
                               seen_matches := {ustr ''seen before''}\<rparr>)
   \<and> load_seen_matches_try True True (example_monitor\<lparr>seen_matches_file := Malformed\<rparr>) = Inl ValueError"
proof -
  have f: "seen_matches_file (example_monitor\<lparr>seen_matches_file := Malformed\<rparr>) = Malformed"
    "seen_matches_file (example_monitor\<lparr>seen_matches_file := Absent\<rparr>) = Absent"
    "seen_matches_file (example_monitor\<lparr>seen_matches_file := Stored {ustr ''seen before''}\<rparr>)
       = Stored {ustr ''seen before''}"
    "events (example_monitor\<lparr>seen_matches_file := Malformed\<rparr>) = []"
    "events (example_monitor\<lparr>seen_matches_file := Absent\<rparr>) = []"
    by (simp_all add: example_monitor_def)
  have t: "load_seen_matches_try True True (example_monitor\<lparr>seen_matches_file := Malformed\<rparr>) = Inl ValueError"
    by (simp add: load_seen_matches_try_def)
  from load_seen_matches_never_raises
    [of True True "example_monitor\<lparr>seen_matches_file := Malformed\<rparr>"]
    load_seen_matches_never_raises
    [of True True "example_monitor\<lparr>seen_matches_file := Absent\<rparr>"]
    load_seen_matches_never_raises
    [of True True "example_monitor\<lparr>seen_matches_file := Stored {ustr ''seen before''}\<rparr>" "{ustr ''seen before''}"]
    f t
  show ?thesis by simp
qed

text \<open>
  C10, as amended. In every run from the start of the loop, an iteration raises the
  counter by at most one, every sleep lasts the configured interval or twice it, and a
  counter above 5 at the sleep step of lines 275 to 281 is reset to zero after the doubled
  sleep. In a run in which no iteration ends in the handler of lines 283 to 286, the
  counter is at most 6 when it reaches the sleep step and at most 5 after each iteration.
\<close>

theorem counter_bounded_without_unexpected_errors:
  "consecutive_errors (start_monitoring py get_text (es @ [e]) m)
      \<le> consecutive_errors (start_monitoring py get_text es m) + 1
   \<and> (\<forall>d \<in> set (sleeps (new_events py get_text es \<lparr>mon = m, consecutive_errors = 0\<rparr>)).
        d = check_interval m \<or> d = check_interval m * 2)
   \<and> (5 < consecutive_errors st \<longrightarrow>
        consecutive_errors (sleep_step st) = 0
        \<and> sleeps (drop (length (events (mon st))) (events (mon (sleep_step st))))
            = [check_interval (mon st) * 2])
   \<and> ((\<forall>x \<in> set es. fetched x \<noteq> Fetch_raised) \<longrightarrow>
        consecutive_errors (start_monitoring py get_text es m) \<le> 5
        \<and> (\<forall>es1 x es2 content m'.
              es = es1 @ x # es2
              \<and> fetch_page_content x (mon (start_monitoring py get_text es1 m)) = Inr (content, m') \<longrightarrow>
              consecutive_errors (loop_body py get_text x content
                ((start_monitoring py get_text es1 m)\<lparr>mon := m'\<rparr>)) \<le> 6))"
proof (intro conjI impI allI ballI)
  have "0 \<le> consecutive_errors (start_monitoring py get_text es m)"
    by (simp add: start_monitoring_def run_errors_nonneg)
  from iteration_errors_le [OF this, of py get_text e]
  show "consecutive_errors (start_monitoring py get_text (es @ [e]) m)
      \<le> consecutive_errors (start_monitoring py get_text es m) + 1"
    by (simp add: start_monitoring_def run_append)
next
  fix d
  assume d: "d \<in> set (sleeps (new_events py get_text es \<lparr>mon = m, consecutive_errors = 0\<rparr>))"
  obtain evs where "events (mon (run py get_text es \<lparr>mon = m, consecutive_errors = 0\<rparr>)) = events m @ evs"
    and all: "\<forall>d \<in> set (sleeps evs). d = check_interval m \<or> d = check_interval m * 2"
    using run_sleeps [of py get_text es "\<lparr>mon = m, consecutive_errors = 0\<rparr>"] by auto
  then have "new_events py get_text es \<lparr>mon = m, consecutive_errors = 0\<rparr> = evs"
    by (simp add: new_events_def)
  with d all show "d = check_interval m \<or> d = check_interval m * 2" by blast
next
  assume "5 < consecutive_errors st"
  then show "consecutive_errors (sleep_step st) = 0"
    and "sleeps (drop (length (events (mon st))) (events (mon (sleep_step st))))
            = [check_interval (mon st) * 2]"
    by (simp_all add: sleep_step_errors sleep_step_events)
next
  assume nr: "\<forall>x \<in> set es. fetched x \<noteq> Fetch_raised"
  from run_errors_bounded [of "\<lparr>mon = m, consecutive_errors = 0\<rparr>" es py get_text] nr
  show "consecutive_errors (start_monitoring py get_text es m) \<le> 5"
    by (simp add: start_monitoring_def)
next
  fix es1 x es2 content m'
  assume nr: "\<forall>x \<in> set es. fetched x \<noteq> Fetch_raised"
    and sp: "es = es1 @ x # es2
      \<and> fetch_page_content x (mon (start_monitoring py get_text es1 m)) = Inr (content, m')"
  then have "\<forall>x \<in> set es1. fetched x \<noteq> Fetch_raised" by auto
  from run_errors_bounded [of "\<lparr>mon = m, consecutive_errors = 0\<rparr>" es1 py get_text] this
  have b: "0 \<le> consecutive_errors (start_monitoring py get_text es1 m)"
    "consecutive_errors (start_monitoring py get_text es1 m) \<le> 5"
    by (simp_all add: start_monitoring_def)
  have "0 \<le> consecutive_errors ((start_monitoring py get_text es1 m)\<lparr>mon := m'\<rparr>)"
    using b(1) by simp
  from loop_body_errors_le [OF this, of py get_text x content] b(2)
  show "consecutive_errors (loop_body py get_text x content
      ((start_monitoring py get_text es1 m)\<lparr>mon := m'\<rparr>)) \<le> 6"
    by simp
qed

theorem counter_exceeds_six:
  "fetch_page_content fetch_raises example_monitor = Inl RuntimeError
   \<and> consecutive_errors (start_monitoring latin1 Some (replicate 7 fetch_raises) example_monitor) = 7"
  by code_simp

theorem counter_bounded_witness:
  "fetched no_page \<noteq> Fetch_raised
   \<and> consecutive_errors (start_monitoring latin1 Some (replicate 5 no_page) example_monitor) = 5
   \<and> (\<exists>m'. fetch_page_content no_page (mon (start_monitoring latin1 Some (replicate 5 no_page) example_monitor))
          = Inr (None, m')
        \<and> consecutive_errors (loop_body latin1 Some no_page None
             ((start_monitoring latin1 Some (replicate 5 no_page) example_monitor)\<lparr>mon := m'\<rparr>)) \<le> 6)
   \<and> consecutive_errors (start_monitoring latin1 Some (replicate 6 no_page) example_monitor) \<le> 5
   \<and> sleeps (new_events latin1 Some (replicate 6 no_page) \<lparr>mon = example_monitor, consecutive_errors = 0\<rparr>)
       = [300, 300, 300, 300, 300, 600]
   \<and> consecutive_errors (sleep_step \<lparr>mon = example_monitor, consecutive_errors = 9\<rparr>) = 0"
proof -
  let ?s5 = "start_monitoring latin1 Some (replicate 5 no_page) example_monitor"
  let ?m = "(mon ?s5)\<lparr>events := events (mon ?s5) @ [Log_error]\<rparr>"
  have a: "fetched no_page \<noteq> Fetch_raised" by (simp add: no_page_def)
  have b: "fetch_page_content no_page (mon ?s5) = Inr (None, ?m)"
    by (simp add: fetch_page_content.simps no_page_def)
  have c: "consecutive_errors ?s5 = 5"
    by code_simp
  have s: "sleeps (new_events latin1 Some (replicate 6 no_page) \<lparr>mon = example_monitor, consecutive_errors = 0\<rparr>)
       = [300, 300, 300, 300, 300, 600]"
    by code_simp
  have all: "\<forall>x \<in> set (replicate 6 no_page). fetched x \<noteq> Fetch_raised" using a by simp
  have sp: "replicate 6 no_page = replicate 5 no_page @ no_page # []"
    by (simp add: numeral_eq_Suc replicate_append_same)
  note inst = counter_bounded_without_unexpected_errors
    [where es = "replicate 6 no_page" and py = latin1 and get_text = Some and m = example_monitor
       and st = "\<lparr>mon = example_monitor, consecutive_errors = 9\<rparr>"]
  from inst all have d: "consecutive_errors (start_monitoring latin1 Some (replicate 6 no_page) example_monitor) \<le> 5"
    by blast
  from inst all sp b
  have "consecutive_errors (loop_body latin1 Some no_page None (?s5\<lparr>mon := ?m\<rparr>)) \<le> 6"
    by blast
  with b have e: "\<exists>m'. fetch_page_content no_page (mon ?s5) = Inr (None, m')
        \<and> consecutive_errors (loop_body latin1 Some no_page None (?s5\<lparr>mon := m'\<rparr>)) \<le> 6"
    by blast
  have "5 < consecutive_errors \<lparr>mon = example_monitor, consecutive_errors = 9\<rparr>" by simp
  with inst have f: "consecutive_errors (sleep_step \<lparr>mon = example_monitor, consecutive_errors = 9\<rparr>) = 0"
    by blast
  from a c d e s f show ?thesis by blast
qed

end
